theory Spec2Isabelle
  imports Main "HOL-Library.Multiset"
begin

section \<open>The chat hub of go-chat\<close>

text \<open>
  The development follows \<^verbatim>\<open>internal/websocket\<close> (hub and client), the message store
  \<^verbatim>\<open>internal/store/messages.go\<close> and the two handlers of \<^verbatim>\<open>cmd/api\<close> that use them.
  Identifiers (\<^verbatim>\<open>int64\<close>) are never computed with, so they are integers here. A
  \<^verbatim>\<open>*Client\<close> is an address; the \<^verbatim>\<open>Client\<close> structs live in a heap indexed by address.
\<close>

subsection \<open>Messages and their JSON encoding\<close>

datatype error = Error string

record Message =
  RoomID :: int
  UserID :: int
  Username :: string
  Content :: string
  Type :: string

text \<open>
  \<^verbatim>\<open>json.Marshal\<close> of a \<^verbatim>\<open>Message\<close> yields one JSON object. The bytes are kept as the
  ordered list of the object's members (key and value), one per tagged struct field. The
  encoder cannot fail on a struct of integers and strings; the error branch of the caller
  is kept all the same.
\<close>

datatype json = JNumber int | JString string

type_synonym frame = "(string \<times> json) list"

definition json_Marshal :: "Message \<Rightarrow> error + frame" where
  "json_Marshal m = Inr
     [(''room_id'', JNumber (RoomID m)),
      (''user_id'', JNumber (UserID m)),
      (''username'', JString (Username m)),
      (''content'', JString (Content m)),
      (''type'', JString (Type m))]"


subsection \<open>Clients and their send channels\<close>

type_synonym cref = nat

record Client =
  userID :: int
  username :: string
  roomID :: int

text \<open>
  A buffered Go channel: the queued values, oldest first, and the closed flag. Every send
  channel is made by \<^verbatim>\<open>websocketHandler\<close> with \<^verbatim>\<open>make(chan []byte, 256)\<close>.
\<close>

record chan =
  buf :: "frame list"
  closed :: bool

definition sendCap :: nat where
  "sendCap = 256"

definition make_chan :: chan where
  "make_chan = \<lparr>buf = [], closed = False\<rparr>"

datatype panic = SendOnClosedChannel | CloseOfClosedChannel

text \<open>
  \<^verbatim>\<open>select { case ch <- v: ... default: ... }\<close>: a send on a closed channel panics, a send
  on a channel with room in its buffer goes through, otherwise the default branch runs.
  The boolean tells which branch was taken.
\<close>

definition try_send :: "frame \<Rightarrow> chan \<Rightarrow> panic + (bool \<times> chan)" where
  "try_send v ch =
     (if closed ch then Inl SendOnClosedChannel
      else if length (buf ch) < sendCap then Inr (True, ch\<lparr>buf := buf ch @ [v]\<rparr>)
      else Inr (False, ch))"

definition close_chan :: "chan \<Rightarrow> panic + chan" where
  "close_chan ch = (if closed ch then Inl CloseOfClosedChannel else Inr (ch\<lparr>closed := True\<rparr>))"

subsection \<open>The state the hub works on\<close>

datatype Context = Background | WithTimeout Context int

definition Second :: int where
  "Second = 1000000000"

record store_Message =
  st_ID :: int
  st_RoomID :: int
  st_UserID :: int
  st_Content :: string
  st_Username :: string
  st_CreatedAt :: int

datatype log_entry =
    LogHubStarted
  | LogRegistered int int nat
  | LogUnregistered int int nat
  | LogRoomEmpty int
  | LogSaveFailed error
  | LogMarshalFailed error
  | LogRemovedFullBuffer int int
  | LogBroadcasted nat int

text \<open>
  \<open>rooms\<close> is \<^verbatim>\<open>Hub.rooms\<close>; the inner \<^verbatim>\<open>map[*Client]bool\<close> is a set, kept as the list of
  its keys without repetition. \<open>clients\<close> is the heap of \<^verbatim>\<open>Client\<close> structs and \<open>chans\<close>
  the state of each client's \<^verbatim>\<open>send\<close> channel. \<open>log\<close> collects the \<^verbatim>\<open>log.Printf\<close> lines
  and \<open>store_calls\<close> the calls made to \<^verbatim>\<open>h.store.Messages.Create\<close>, in order.
\<close>

record hub_state =
  rooms :: "int \<rightharpoonup> cref list"
  clients :: "cref \<Rightarrow> Client"
  chans :: "cref \<Rightarrow> chan"
  log :: "log_entry list"
  store_calls :: "(Context \<times> store_Message) list"

definition NewHub :: "(cref \<Rightarrow> Client) \<Rightarrow> hub_state" where
  "NewHub heap = \<lparr>rooms = Map.empty, clients = heap, chans = (\<lambda>_. make_chan),
                  log = [], store_calls = []\<rparr>"

definition room_clients :: "hub_state \<Rightarrow> int \<Rightarrow> cref list" where
  "room_clients s r = (case rooms s r of None \<Rightarrow> [] | Some cs \<Rightarrow> cs)"

definition members :: "hub_state \<Rightarrow> int \<Rightarrow> cref set" where
  "members s r = set (room_clients s r)"

definition GetRoomClientCount :: "hub_state \<Rightarrow> int \<Rightarrow> nat" where
  "GetRoomClientCount s r = (case rooms s r of Some cs \<Rightarrow> length cs | None \<Rightarrow> 0)"

subsection \<open>broadcastToRoom\<close>

text \<open>
  The loop \<^verbatim>\<open>for client := range clients\<close> visits every key of the set once; the order is
  not fixed by Go and \<open>fan_out_perm\<close> below shows that it does not matter. \<^verbatim>\<open>delete(clients,
  client)\<close> changes the set that \<^verbatim>\<open>h.rooms[roomID]\<close> refers to; the loop runs only when
  the room is a key of \<^verbatim>\<open>h.rooms\<close>.
\<close>

fun fan_out :: "int \<Rightarrow> frame \<Rightarrow> cref list \<Rightarrow> hub_state \<Rightarrow> panic + hub_state" where
  "fan_out r v [] s = Inr s"
| "fan_out r v (c # cs) s =
     (case try_send v (chans s c) of
        Inl p \<Rightarrow> Inl p
      | Inr (True, ch) \<Rightarrow> fan_out r v cs (s\<lparr>chans := (chans s)(c := ch)\<rparr>)
      | Inr (False, _) \<Rightarrow>
          (case close_chan (chans s c) of
             Inl p \<Rightarrow> Inl p
           | Inr ch \<Rightarrow>
               fan_out r v cs
                 (s\<lparr>chans := (chans s)(c := ch),
                    rooms := (rooms s)(r \<mapsto> removeAll c (room_clients s r)),
                    log := log s @ [LogRemovedFullBuffer (userID (clients s c)) r]\<rparr>)))"

definition broadcastToRoom :: "int \<Rightarrow> Message \<Rightarrow> hub_state \<Rightarrow> panic + hub_state" where
  "broadcastToRoom r m s =
     (case rooms s r of
        None \<Rightarrow> Inr s
      | Some cs \<Rightarrow>
          (case json_Marshal m of
             Inl e \<Rightarrow> Inr (s\<lparr>log := log s @ [LogMarshalFailed e]\<rparr>)
           | Inr v \<Rightarrow>
               (case fan_out r v cs s of
                  Inl p \<Rightarrow> Inl p
                | Inr s' \<Rightarrow>
                    Inr (s'\<lparr>log := log s' @ [LogBroadcasted (length (room_clients s' r)) r]\<rparr>))))"

subsection \<open>registerClient, unregisterClient, handleBroadcast\<close>

definition joinMessage :: "Client \<Rightarrow> Message" where
  "joinMessage cl = \<lparr>RoomID = roomID cl, UserID = userID cl, Username = username cl,
                     Content = username cl @ '' joined the room'', Type = ''join''\<rparr>"

definition leaveMessage :: "Client \<Rightarrow> Message" where
  "leaveMessage cl = \<lparr>RoomID = roomID cl, UserID = userID cl, Username = username cl,
                      Content = username cl @ '' left the room'', Type = ''leave''\<rparr>"

definition registerClient :: "cref \<Rightarrow> hub_state \<Rightarrow> panic + hub_state" where
  "registerClient c s =
     (let cl = clients s c;
          r = roomID cl;
          s1 = (if rooms s r = None then s\<lparr>rooms := (rooms s)(r \<mapsto> [])\<rparr> else s);
          cs = room_clients s1 r;
          s2 = s1\<lparr>rooms := (rooms s1)(r \<mapsto> (if c \<in> set cs then cs else cs @ [c]))\<rparr>;
          s3 = s2\<lparr>log := log s2 @ [LogRegistered (userID cl) r (length (room_clients s2 r))]\<rparr>
      in broadcastToRoom r (joinMessage cl) s3)"

definition unregisterClient :: "cref \<Rightarrow> hub_state \<Rightarrow> panic + hub_state" where
  "unregisterClient c s =
     (let cl = clients s c;
          r = roomID cl
      in case rooms s r of
           None \<Rightarrow> Inr s
         | Some cs \<Rightarrow>
             if c \<notin> set cs then Inr s
             else
               (let s1 = s\<lparr>rooms := (rooms s)(r \<mapsto> removeAll c cs)\<rparr>
                in case close_chan (chans s1 c) of
                     Inl p \<Rightarrow> Inl p
                   | Inr ch \<Rightarrow>
                       (let s2 = s1\<lparr>chans := (chans s1)(c := ch),
                                    log := log s1 @ [LogUnregistered (userID cl) r
                                                       (length (room_clients s1 r))]\<rparr>;
                            s3 = (if length (room_clients s2 r) = 0
                                  then s2\<lparr>rooms := (rooms s2)(r := None),
                                          log := log s2 @ [LogRoomEmpty r]\<rparr>
                                  else s2)
                        in broadcastToRoom r (leaveMessage cl) s3)))"

text \<open>
  \<^verbatim>\<open>h.store.Messages.Create\<close> belongs to the persistence collaborator: \<open>res\<close> is what that
  call returns when it is made (\<open>None\<close> for \<^verbatim>\<open>nil\<close>), and the call itself is recorded with
  its context and its argument. The fields \<^verbatim>\<open>ID\<close>, \<^verbatim>\<open>Username\<close> and \<^verbatim>\<open>CreatedAt\<close> of the
  argument have their zero values.
\<close>

definition dbMessage :: "Message \<Rightarrow> store_Message" where
  "dbMessage m = \<lparr>st_ID = 0, st_RoomID = RoomID m, st_UserID = UserID m,
                  st_Content = Content m, st_Username = [], st_CreatedAt = 0\<rparr>"

definition handleBroadcast :: "error option \<Rightarrow> Message \<Rightarrow> hub_state \<Rightarrow> panic + hub_state" where
  "handleBroadcast res m s =
     (let s1 = (if Type m = ''message''
                then (let ctx = WithTimeout Background (5 * Second);
                          s' = s\<lparr>store_calls := store_calls s @ [(ctx, dbMessage m)]\<rparr>
                      in case res of
                           Some err \<Rightarrow> s'\<lparr>log := log s' @ [LogSaveFailed err]\<rparr>
                         | None \<Rightarrow> s')
                else s)
      in broadcastToRoom (RoomID m) m s1)"

subsection \<open>The event loop\<close>

text \<open>
  \<^verbatim>\<open>Hub.Run\<close> takes one request at a time from its three channels. \<open>Recv\<close> is the other
  party of a send channel: the client's writer taking the oldest queued frame.
\<close>

datatype event =
    Register cref
  | Unregister cref
  | Broadcast Message "error option"
  | Recv cref

definition writer_recv :: "cref \<Rightarrow> hub_state \<Rightarrow> hub_state" where
  "writer_recv c s =
     (case buf (chans s c) of
        [] \<Rightarrow> s
      | _ # rest \<Rightarrow> s\<lparr>chans := (chans s)(c := (chans s c)\<lparr>buf := rest\<rparr>)\<rparr>)"

fun step :: "event \<Rightarrow> hub_state \<Rightarrow> panic + hub_state" where
  "step (Register c) s = registerClient c s"
| "step (Unregister c) s = unregisterClient c s"
| "step (Broadcast m res) s = handleBroadcast res m s"
| "step (Recv c) s = Inr (writer_recv c s)"

fun run_loop :: "event list \<Rightarrow> hub_state \<Rightarrow> panic + hub_state" where
  "run_loop [] s = Inr s"
| "run_loop (e # es) s = (case step e s of Inl p \<Rightarrow> Inl p | Inr s' \<Rightarrow> run_loop es s')"

definition Run :: "event list \<Rightarrow> hub_state \<Rightarrow> panic + hub_state" where
  "Run es s = run_loop es (s\<lparr>log := log s @ [LogHubStarted]\<rparr>)"

fun registrations :: "event list \<Rightarrow> cref list" where
  "registrations [] = []"
| "registrations (Register c # es) = c # registrations es"
| "registrations (_ # es) = registrations es"

subsection \<open>What a broadcast does to one recipient\<close>

definition full :: "hub_state \<Rightarrow> cref \<Rightarrow> bool" where
  "full s c = (\<not> length (buf (chans s c)) < sendCap)"

definition deliver :: "frame \<Rightarrow> chan \<Rightarrow> chan" where
  "deliver v ch =
     (if length (buf ch) < sendCap then ch\<lparr>buf := buf ch @ [v]\<rparr> else ch\<lparr>closed := True\<rparr>)"

text \<open>
  A room is in order when its list has no repetition (it stands for a set) and no queue of
  a member is closed. \<open>hub_inv\<close> asks this of every room, and that a member sits in the
  room named by its own \<^verbatim>\<open>roomID\<close>.
\<close>

definition room_ok :: "hub_state \<Rightarrow> int \<Rightarrow> bool" where
  "room_ok s r =
     (distinct (room_clients s r) \<and> list_all (\<lambda>c. \<not> closed (chans s c)) (room_clients s r))"

definition hub_inv :: "hub_state \<Rightarrow> bool" where
  "hub_inv s =
     (\<forall>r. room_ok s r \<and> (\<forall>c \<in> members s r. roomID (clients s c) = r))"

definition unused :: "hub_state \<Rightarrow> cref \<Rightarrow> bool" where
  "unused s c = (\<not> closed (chans s c) \<and> (\<forall>r. c \<notin> members s r))"

subsection \<open>The reader of a connection\<close>

text \<open>
  \<^verbatim>\<open>c.conn.ReadMessage()\<close> belongs to the websocket library: it returns the payload of the
  next message, or an error (peer close, deadline, a frame the library rejects, a message
  over the read limit). The flag of \<open>ReadErr\<close> is the value of
  \<^verbatim>\<open>websocket.IsUnexpectedCloseError\<close> for that error. \<open>readPump\<close> gives what the reader
  does, in order; when the reads run out the reader is blocked in \<^verbatim>\<open>ReadMessage\<close> and has
  not left its loop.
\<close>

datatype read_result = ReadOK string | ReadErr error bool

datatype reader_action =
    SetReadLimit nat
  | SetReadDeadline
  | SetPongHandler
  | LogWebSocketError error
  | ToBroadcast Message
  | ToUnregister cref
  | ConnClose

definition maxMessageSize :: nat where
  "maxMessageSize = 1024 * 1024"

definition chatMessage :: "Client \<Rightarrow> string \<Rightarrow> Message" where
  "chatMessage cl message = \<lparr>RoomID = roomID cl, UserID = userID cl, Username = username cl,
                             Content = message, Type = ''message''\<rparr>"

fun read_loop :: "Client \<Rightarrow> read_result list \<Rightarrow> reader_action list \<times> bool" where
  "read_loop cl [] = ([], False)"
| "read_loop cl (ReadErr err unexpected # _) =
     ((if unexpected then [LogWebSocketError err] else []), True)"
| "read_loop cl (ReadOK message # rest) =
     (case read_loop cl rest of (acts, left) \<Rightarrow> (ToBroadcast (chatMessage cl message) # acts, left))"

definition readPump :: "cref \<Rightarrow> Client \<Rightarrow> read_result list \<Rightarrow> reader_action list" where
  "readPump c cl reads =
     (case read_loop cl reads of
        (acts, left) \<Rightarrow>
          [SetReadLimit maxMessageSize, SetReadDeadline, SetPongHandler] @ acts @
          (if left then [ToUnregister c, ConnClose] else []))"

subsection \<open>The message store\<close>

text \<open>
  The tables \<^verbatim>\<open>messages\<close> and \<^verbatim>\<open>users\<close> with the columns the query reads; a timestamp is a
  number. \<open>pg_query\<close> is the \<^verbatim>\<open>SELECT\<close> of \<^verbatim>\<open>GetRoomMessages\<close> read as SQL: inner join
  on the user, the rows of the room, newest first, at most \<^verbatim>\<open>LIMIT\<close> rows. SQL leaves the
  order of rows with equal \<^verbatim>\<open>created_at\<close> open; the stable sort picks one.
\<close>

record message_row =
  m_id :: int
  m_room_id :: int
  m_user_id :: int
  m_content :: string
  m_created_at :: int

record user_row =
  u_id :: int
  u_username :: string

record database =
  messages_tbl :: "message_row list"
  users_tbl :: "user_row list"

datatype query_result =
    QueryFailed error
  | Rows "(error + store_Message) list" "error option"

definition join_row :: "message_row \<Rightarrow> user_row \<Rightarrow> store_Message" where
  "join_row m u = \<lparr>st_ID = m_id m, st_RoomID = m_room_id m, st_UserID = m_user_id m,
                   st_Content = m_content m, st_Username = u_username u,
                   st_CreatedAt = m_created_at m\<rparr>"

definition joined :: "database \<Rightarrow> int \<Rightarrow> store_Message list" where
  "joined db room_id =
     concat (map (\<lambda>m. map (join_row m) (filter (\<lambda>u. m_user_id m = u_id u) (users_tbl db)))
                 (filter (\<lambda>m. m_room_id m = room_id) (messages_tbl db)))"

definition newest_first :: "store_Message list \<Rightarrow> store_Message list" where
  "newest_first ms = sort_key (\<lambda>m. - st_CreatedAt m) ms"

definition pg_query :: "database \<Rightarrow> int \<Rightarrow> int \<Rightarrow> query_result" where
  "pg_query db room_id limit =
     (if limit < 0 then QueryFailed (Error ''LIMIT must not be negative'')
      else Rows (map Inr (take (nat limit) (newest_first (joined db room_id)))) None)"

text \<open>The loop over \<^verbatim>\<open>rows.Next()\<close>: each row is scanned and appended; a failed scan returns.\<close>

fun scan_rows :: "(error + store_Message) list \<Rightarrow> store_Message list \<Rightarrow> error + store_Message list" where
  "scan_rows [] messages = Inr messages"
| "scan_rows (Inl err # _) messages = Inl err"
| "scan_rows (Inr message # rest) messages = scan_rows rest (messages @ [message])"

text \<open>
  \<^verbatim>\<open>for i, j := 0, len(messages)-1; i < j; i, j = i+1, j-1 { swap }\<close>. The indices are
  Go \<^verbatim>\<open>int\<close>s; \<open>j\<close> starts at \<open>-1\<close> on the empty slice.
\<close>

function reverse_slice :: "int \<Rightarrow> int \<Rightarrow> 'a list \<Rightarrow> 'a list" where
  "reverse_slice i j xs =
     (if i < j
      then reverse_slice (i + 1) (j - 1) (xs[nat i := xs ! nat j, nat j := xs ! nat i])
      else xs)"
  by pat_completeness auto
termination
  by (relation "measure (\<lambda>(i, j, xs). nat (j - i))") auto

definition GetRoomMessages ::
  "(int \<Rightarrow> int \<Rightarrow> query_result) \<Rightarrow> int \<Rightarrow> int \<Rightarrow> error + store_Message list" where
  "GetRoomMessages query room_id limit =
     (case query room_id limit of
        QueryFailed err \<Rightarrow> Inl err
      | Rows rs rows_err \<Rightarrow>
          (case scan_rows rs [] of
             Inl err \<Rightarrow> Inl err
           | Inr messages \<Rightarrow>
               (case rows_err of
                  Some err \<Rightarrow> Inl err
                | None \<Rightarrow> Inr (reverse_slice 0 (int (length messages) - 1) messages))))"

datatype http_response =
    ErrorResponse nat string
  | MessagesResponse nat "store_Message list"

text \<open>
  \<open>user\<close> and \<open>room\<close> are the results of \<^verbatim>\<open>GetUserIDFromContext\<close> and
  \<^verbatim>\<open>extractIDFromURL\<close>, \<open>isUserInRoom\<close> is \<^verbatim>\<open>RoomMembers.IsUserInRoom\<close>.
\<close>

definition getRoomMessagesHandler ::
  "error + int \<Rightarrow> error + int \<Rightarrow> (int \<Rightarrow> int \<Rightarrow> error + bool) \<Rightarrow>
   (int \<Rightarrow> int \<Rightarrow> query_result) \<Rightarrow> http_response" where
  "getRoomMessagesHandler user room isUserInRoom query =
     (case user of
        Inl _ \<Rightarrow> ErrorResponse 401 ''user not authenticated''
      | Inr user_id \<Rightarrow>
          (case room of
             Inl (Error text) \<Rightarrow> ErrorResponse 400 text
           | Inr room_id \<Rightarrow>
               (case isUserInRoom room_id user_id of
                  Inl _ \<Rightarrow> ErrorResponse 500 ''failed to verify room membership''
                | Inr False \<Rightarrow> ErrorResponse 403 ''you must join the room to see messages''
                | Inr True \<Rightarrow>
                    (case GetRoomMessages query room_id 100 of
                       Inl _ \<Rightarrow> ErrorResponse 500 ''failed to retrieve messages''
                     | Inr messages \<Rightarrow> MessagesResponse 200 messages))))"

subsection \<open>Auxiliary notions for the proofs\<close>

text \<open>
  \<open>add_client\<close> is the assignment \<^verbatim>\<open>h.rooms[client.roomID][client] = true\<close> on the list
  of keys; \<open>persist\<close> is the state after the first half of \<^verbatim>\<open>handleBroadcast\<close>.
\<close>

definition add_client :: "cref \<Rightarrow> cref list \<Rightarrow> cref list" where
  "add_client c cs = (if c \<in> set cs then cs else cs @ [c])"

definition persist :: "error option \<Rightarrow> Message \<Rightarrow> hub_state \<Rightarrow> hub_state" where
  "persist res m s =
     (if Type m = ''message''
      then s\<lparr>store_calls := store_calls s @ [(WithTimeout Background (5 * Second), dbMessage m)],
             log := log s @ (case res of Some err \<Rightarrow> [LogSaveFailed err] | None \<Rightarrow> [])\<rparr>
      else s)"

subsection \<open>Example data\<close>

definition ann :: Client where
  "ann = \<lparr>userID = 1, username = ''ann'', roomID = 7\<rparr>"

definition bob :: Client where
  "bob = \<lparr>userID = 2, username = ''bob'', roomID = 7\<rparr>"

definition heap0 :: "cref \<Rightarrow> Client" where
  "heap0 c = (if c = 0 then ann else bob)"

definition hello :: Message where
  "hello = chatMessage ann ''hello''"

definition hello_frame :: frame where
  "hello_frame = [(''room_id'', JNumber 7), (''user_id'', JNumber 1), (''username'', JString ''ann''),
                  (''content'', JString ''hello''), (''type'', JString ''message'')]"

definition bob_join :: frame where
  "bob_join = [(''room_id'', JNumber 7), (''user_id'', JNumber 2), (''username'', JString ''bob''),
               (''content'', JString ''bob joined the room''), (''type'', JString ''join'')]"

definition ann_join :: frame where
  "ann_join = [(''room_id'', JNumber 7), (''user_id'', JNumber 1), (''username'', JString ''ann''),
               (''content'', JString ''ann joined the room''), (''type'', JString ''join'')]"

definition ann_leave :: frame where
  "ann_leave = [(''room_id'', JNumber 7), (''user_id'', JNumber 1), (''username'', JString ''ann''),
                (''content'', JString ''ann left the room''), (''type'', JString ''leave'')]"

text \<open>Room 7 with two members; the queue of the first holds 256 frames, the other none.\<close>

definition slow_state :: hub_state where
  "slow_state = \<lparr>rooms = [7 \<mapsto> [0, 1]], clients = heap0,
                  chans = (\<lambda>c. if c = 0 then \<lparr>buf = replicate 256 hello_frame, closed = False\<rparr>
                                 else make_chan),
                  log = [], store_calls = []\<rparr>"

text \<open>Room 7 with one member whose queue holds 256 frames.\<close>

definition lonely_full :: hub_state where
  "lonely_full = \<lparr>rooms = [7 \<mapsto> [0]], clients = heap0,
                   chans = (\<lambda>c. if c = 0 then \<lparr>buf = replicate 256 hello_frame, closed = False\<rparr>
                                  else make_chan),
                   log = [], store_calls = []\<rparr>"

text \<open>Room 7 with two members and empty queues.\<close>

definition calm_state :: hub_state where
  "calm_state = \<lparr>rooms = [7 \<mapsto> [0, 1]], clients = heap0, chans = (\<lambda>_. make_chan),
                  log = [], store_calls = []\<rparr>"

text \<open>A store with two messages in room 7, one in room 8, and their two senders.\<close>

definition db0 :: database where
  "db0 = \<lparr>messages_tbl =
            [\<lparr>m_id = 1, m_room_id = 7, m_user_id = 1, m_content = ''hello'', m_created_at = 30\<rparr>,
             \<lparr>m_id = 2, m_room_id = 8, m_user_id = 2, m_content = ''other'', m_created_at = 10\<rparr>,
             \<lparr>m_id = 3, m_room_id = 7, m_user_id = 2, m_content = ''hi ann'', m_created_at = 20\<rparr>],
          users_tbl = [\<lparr>u_id = 1, u_username = ''ann''\<rparr>, \<lparr>u_id = 2, u_username = ''bob''\<rparr>]\<rparr>"

definition member0 :: "int \<Rightarrow> int \<Rightarrow> error + bool" where
  "member0 rid uid = Inr True"

definition es0 :: "event list" where
  "es0 = [Register 0, Register 1, Broadcast hello None, Unregister 0, Unregister 0, Recv 1,
          Broadcast hello (Some (Error ''context deadline exceeded''))]"

text \<open>
  Connection 0 registers in room 7 and 255 chat messages are broadcast to the room while
  its writer takes nothing. \<open>lone_member k\<close> describes the states on the way: connection
  0 alone in room 7, its queue open with the join frame and \<open>k\<close> message frames.
\<close>

definition fill_events :: "event list" where
  "fill_events = Register 0 # replicate 255 (Broadcast hello None)"

definition lone_member :: "nat \<Rightarrow> hub_state \<Rightarrow> bool" where
  "lone_member k s =
     (rooms s 7 = Some [0] \<and> clients s = heap0 \<and>
      chans s 0 = \<lparr>buf = ann_join # replicate k hello_frame, closed = False\<rparr> \<and>
      chans s 1 = make_chan)"

section \<open>Properties of the fan-out\<close>

lemma fan_out_clients: "fan_out r v cs s = Inr s' \<Longrightarrow> clients s' = clients s"
  by (induction cs arbitrary: s)
     (auto simp: try_send_def close_chan_def split: if_splits sum.splits prod.splits bool.splits)

lemma fan_out_store_calls: "fan_out r v cs s = Inr s' \<Longrightarrow> store_calls s' = store_calls s"
  by (induction cs arbitrary: s)
     (auto simp: try_send_def close_chan_def split: if_splits sum.splits prod.splits bool.splits)

lemma fan_out_rooms_other: "fan_out r v cs s = Inr s' \<Longrightarrow> r' \<noteq> r \<Longrightarrow> rooms s' r' = rooms s r'"
  by (induction cs arbitrary: s)
     (auto simp: try_send_def close_chan_def split: if_splits sum.splits prod.splits bool.splits)

lemma fan_out_rooms_key: "fan_out r v cs s = Inr s' \<Longrightarrow> rooms s r \<noteq> None \<Longrightarrow> rooms s' r \<noteq> None"
  by (induction cs arbitrary: s)
     (auto simp: try_send_def close_chan_def split: if_splits sum.splits prod.splits bool.splits)

lemma fan_out_chans:
  "distinct cs \<Longrightarrow> fan_out r v cs s = Inr s' \<Longrightarrow>
   chans s' x = (if x \<in> set cs then deliver v (chans s x) else chans s x)"
proof (induction cs arbitrary: s)
  case Nil
  then show ?case by simp
next
  case (Cons c cs)
  then show ?case
    by (auto simp: try_send_def close_chan_def deliver_def
             split: if_splits sum.splits prod.splits bool.splits)
qed

lemma fan_out_room_clients:
  "distinct cs \<Longrightarrow> fan_out r v cs s = Inr s' \<Longrightarrow>
   room_clients s' r = filter (\<lambda>x. \<not> (x \<in> set cs \<and> full s x)) (room_clients s r)"
proof (induction cs arbitrary: s)
  case Nil
  then show ?case by simp
next
  case (Cons c cs)
  show ?case
  proof (cases "length (buf (chans s c)) < sendCap")
    case True
    let ?s1 = "s\<lparr>chans := (chans s)(c := (chans s c)\<lparr>buf := buf (chans s c) @ [v]\<rparr>)\<rparr>"
    from Cons.prems True have run: "fan_out r v cs ?s1 = Inr s'"
      by (auto simp: try_send_def split: if_splits)
    from Cons.prems have d: "distinct cs" and nc: "c \<notin> set cs" by auto
    have "room_clients s' r = filter (\<lambda>x. \<not> (x \<in> set cs \<and> full ?s1 x)) (room_clients ?s1 r)"
      using Cons.IH[OF d run] .
    also have "\<dots> = filter (\<lambda>x. \<not> (x \<in> set (c # cs) \<and> full s x)) (room_clients s r)"
      using True nc by (auto simp: full_def room_clients_def intro!: filter_cong)
    finally show ?thesis .
  next
    case False
    let ?s1 = "s\<lparr>chans := (chans s)(c := (chans s c)\<lparr>closed := True\<rparr>),
                 rooms := (rooms s)(r \<mapsto> removeAll c (room_clients s r)),
                 log := log s @ [LogRemovedFullBuffer (userID (clients s c)) r]\<rparr>"
    from Cons.prems False have run: "fan_out r v cs ?s1 = Inr s'"
      by (auto simp: try_send_def close_chan_def split: if_splits)
    from Cons.prems have d: "distinct cs" and nc: "c \<notin> set cs" by auto
    have "room_clients s' r = filter (\<lambda>x. \<not> (x \<in> set cs \<and> full ?s1 x)) (room_clients ?s1 r)"
      using Cons.IH[OF d run] .
    also have "\<dots> = filter (\<lambda>x. \<not> (x \<in> set (c # cs) \<and> full s x)) (room_clients s r)"
      using False nc by (auto simp: full_def room_clients_def removeAll_filter_not_eq intro!: filter_cong)
    finally show ?thesis .
  qed
qed

lemma fan_out_no_panic:
  "distinct cs \<Longrightarrow> (\<forall>c\<in>set cs. \<not> closed (chans s c)) \<Longrightarrow> \<exists>s'. fan_out r v cs s = Inr s'"
proof (induction cs arbitrary: s)
  case Nil
  then show ?case by simp
next
  case (Cons c cs)
  from Cons.prems have d: "distinct cs" and nc: "c \<notin> set cs"
    and op: "\<not> closed (chans s c)" by auto
  show ?case
  proof (cases "length (buf (chans s c)) < sendCap")
    case True
    let ?s1 = "s\<lparr>chans := (chans s)(c := (chans s c)\<lparr>buf := buf (chans s c) @ [v]\<rparr>)\<rparr>"
    have "\<forall>x\<in>set cs. \<not> closed (chans ?s1 x)" using Cons.prems nc by auto
    from Cons.IH[OF d this] obtain s' where "fan_out r v cs ?s1 = Inr s'" by blast
    then show ?thesis using True op by (simp add: try_send_def)
  next
    case False
    let ?s1 = "s\<lparr>chans := (chans s)(c := (chans s c)\<lparr>closed := True\<rparr>),
                 rooms := (rooms s)(r \<mapsto> removeAll c (room_clients s r)),
                 log := log s @ [LogRemovedFullBuffer (userID (clients s c)) r]\<rparr>"
    have "\<forall>x\<in>set cs. \<not> closed (chans ?s1 x)" using Cons.prems nc by auto
    from Cons.IH[OF d this] obtain s' where "fan_out r v cs ?s1 = Inr s'" by blast
    then show ?thesis using False op by (simp add: try_send_def close_chan_def)
  qed
qed


lemma fan_out_log: "fan_out r v cs s = Inr s' \<Longrightarrow> set (log s) \<subseteq> set (log s')"
proof (induction cs arbitrary: s)
  case Nil
  then show ?case by simp
next
  case (Cons c cs)
  show ?case
  proof (cases "length (buf (chans s c)) < sendCap")
    case True
    with Cons.prems
    have "fan_out r v cs (s\<lparr>chans := (chans s)(c := (chans s c)\<lparr>buf := buf (chans s c) @ [v]\<rparr>)\<rparr>) = Inr s'"
      by (auto simp: try_send_def split: if_splits)
    from Cons.IH[OF this] show ?thesis by simp
  next
    case False
    with Cons.prems
    have "fan_out r v cs (s\<lparr>chans := (chans s)(c := (chans s c)\<lparr>closed := True\<rparr>),
                 rooms := (rooms s)(r \<mapsto> removeAll c (room_clients s r)),
                 log := log s @ [LogRemovedFullBuffer (userID (clients s c)) r]\<rparr>) = Inr s'"
      by (auto simp: try_send_def close_chan_def split: if_splits)
    from Cons.IH[OF this] show ?thesis by simp
  qed
qed

lemma room_ok_iff:
  "room_ok s r \<longleftrightarrow> distinct (room_clients s r) \<and> (\<forall>c \<in> members s r. \<not> closed (chans s c))"
  by (simp add: room_ok_def members_def list_all_iff)

lemma broadcast_absent: "rooms s r = None \<Longrightarrow> broadcastToRoom r m s = Inr s"
  by (simp add: broadcastToRoom_def)

lemma broadcast_no_panic: "room_ok s r \<Longrightarrow> \<exists>s'. broadcastToRoom r m s = Inr s'"
proof (cases "rooms s r")
  case None
  then show ?thesis by (simp add: broadcastToRoom_def)
next
  case (Some cs)
  assume "room_ok s r"
  with Some have "distinct cs" "\<forall>c\<in>set cs. \<not> closed (chans s c)"
    by (simp_all add: room_ok_iff members_def room_clients_def)
  note np = fan_out_no_panic[OF this]
  obtain v where v: "json_Marshal m = Inr v" by (simp add: json_Marshal_def)
  from np[of r v] obtain t where "fan_out r v cs s = Inr t" by blast
  with Some v show ?thesis by (simp add: broadcastToRoom_def)
qed

lemma broadcast_chans:
  assumes "room_ok s r" "json_Marshal m = Inr v" "broadcastToRoom r m s = Inr s'"
  shows "chans s' x = (if x \<in> members s r then deliver v (chans s x) else chans s x)"
proof (cases "rooms s r")
  case None
  with assms show ?thesis by (simp add: broadcastToRoom_def members_def room_clients_def)
next
  case (Some cs)
  with assms obtain t where t: "fan_out r v cs s = Inr t" and c: "chans s' = chans t"
    by (auto simp: broadcastToRoom_def split: sum.splits)
  from assms(1) Some have "distinct cs" by (simp add: room_ok_def room_clients_def)
  from fan_out_chans[OF this t] c Some show ?thesis
    by (simp add: members_def room_clients_def)
qed

lemma broadcast_room_clients:
  assumes "room_ok s r" "broadcastToRoom r m s = Inr s'"
  shows "room_clients s' r = filter (\<lambda>x. \<not> full s x) (room_clients s r)"
proof (cases "rooms s r")
  case None
  with assms show ?thesis by (simp add: broadcastToRoom_def room_clients_def)
next
  case (Some cs)
  with assms obtain v t where t: "fan_out r v cs s = Inr t" and c: "rooms s' = rooms t"
    by (auto simp: broadcastToRoom_def json_Marshal_def split: sum.splits)
  from assms(1) Some have "distinct cs" by (simp add: room_ok_def room_clients_def)
  from fan_out_room_clients[OF this t] c Some show ?thesis
    by (auto simp: room_clients_def intro: filter_cong)
qed

lemma broadcast_rooms_other:
  "broadcastToRoom r m s = Inr s' \<Longrightarrow> r' \<noteq> r \<Longrightarrow> rooms s' r' = rooms s r'"
  by (auto simp: broadcastToRoom_def split: option.splits sum.splits dest: fan_out_rooms_other)

lemma broadcast_rooms_key:
  "broadcastToRoom r m s = Inr s' \<Longrightarrow> (rooms s' r = None) = (rooms s r = None)"
  by (auto simp: broadcastToRoom_def split: option.splits sum.splits dest: fan_out_rooms_key)

lemma broadcast_clients: "broadcastToRoom r m s = Inr s' \<Longrightarrow> clients s' = clients s"
  by (auto simp: broadcastToRoom_def split: option.splits sum.splits dest: fan_out_clients)

lemma broadcast_store_calls: "broadcastToRoom r m s = Inr s' \<Longrightarrow> store_calls s' = store_calls s"
  by (auto simp: broadcastToRoom_def split: option.splits sum.splits dest: fan_out_store_calls)

lemma broadcast_log: "broadcastToRoom r m s = Inr s' \<Longrightarrow> set (log s) \<subseteq> set (log s')"
  by (auto simp: broadcastToRoom_def split: option.splits sum.splits dest!: fan_out_log)

lemma members_broadcast:
  assumes "room_ok s r" "broadcastToRoom r m s = Inr s'"
  shows "members s' r = {x \<in> members s r. \<not> full s x}"
  using broadcast_room_clients[OF assms] by (auto simp: members_def)

lemma members_broadcast_other:
  "broadcastToRoom r m s = Inr s' \<Longrightarrow> r' \<noteq> r \<Longrightarrow> members s' r' = members s r'"
  by (simp add: members_def room_clients_def broadcast_rooms_other)

lemma closed_deliver: "closed (deliver v ch) = (closed ch \<or> \<not> length (buf ch) < sendCap)"
  by (simp add: deliver_def)

lemma broadcast_inv:
  assumes inv: "hub_inv s" and run: "broadcastToRoom r m s = Inr s'"
  shows "hub_inv s'"
proof -
  obtain v where v: "json_Marshal m = Inr v" by (simp add: json_Marshal_def)
  from inv have ok: "room_ok s r" by (simp add: hub_inv_def)
  note ch = broadcast_chans[OF ok v run]
  note cl = broadcast_clients[OF run]
  have "room_ok s' r' \<and> (\<forall>c \<in> members s' r'. roomID (clients s' c) = r')" for r'
  proof (cases "r' = r")
    case True
    have d: "distinct (room_clients s' r)"
      using ok broadcast_room_clients[OF ok run] by (simp add: room_ok_def)
    have "\<forall>c \<in> members s' r. \<not> closed (chans s' c)"
      using ok ch members_broadcast[OF ok run]
      by (auto simp: room_ok_iff closed_deliver full_def)
    moreover have "\<forall>c \<in> members s' r. roomID (clients s' c) = r"
      using inv cl members_broadcast[OF ok run] by (auto simp: hub_inv_def)
    ultimately show ?thesis using d True by (simp add: room_ok_iff)
  next
    case False
    have mem: "members s' r' = members s r'"
      using members_broadcast_other[OF run False] .
    have rc: "room_clients s' r' = room_clients s r'"
      using broadcast_rooms_other[OF run False] by (simp add: room_clients_def)
    have other: "c \<notin> members s r" if "c \<in> members s r'" for c
    proof
      assume "c \<in> members s r"
      with inv have "roomID (clients s c) = r" by (simp add: hub_inv_def)
      moreover from inv that have "roomID (clients s c) = r'" by (simp add: hub_inv_def)
      ultimately show False using False by simp
    qed
    from inv have ok': "room_ok s r'" and rid: "\<forall>c \<in> members s r'. roomID (clients s c) = r'"
      by (simp_all add: hub_inv_def)
    have "\<forall>c \<in> members s' r'. \<not> closed (chans s' c)"
      using ok' mem ch other by (auto simp: room_ok_iff)
    then show ?thesis using ok' rc mem rid cl by (simp add: room_ok_iff)
  qed
  then show ?thesis by (simp add: hub_inv_def)
qed

lemma broadcast_unused:
  assumes inv: "hub_inv s" and run: "broadcastToRoom r m s = Inr s'" and u: "unused s x"
  shows "unused s' x"
proof -
  obtain v where v: "json_Marshal m = Inr v" by (simp add: json_Marshal_def)
  from inv have ok: "room_ok s r" by (simp add: hub_inv_def)
  from u have "chans s' x = chans s x"
    using broadcast_chans[OF ok v run, of x] by (simp add: unused_def)
  moreover have "x \<notin> members s' r'" for r'
    using u members_broadcast[OF ok run] members_broadcast_other[OF run, of r']
    by (cases "r' = r") (auto simp: unused_def)
  ultimately show ?thesis using u by (simp add: unused_def)
qed

text \<open>
  The order in which the loop visits the room's set does not matter for the queues, the
  registry, the heap and the store; only the log lines of the evictions come in the order
  of the visits.
\<close>

lemma fan_out_open:
  "distinct cs \<Longrightarrow> fan_out r v cs s = Inr t \<Longrightarrow> \<forall>c \<in> set cs. \<not> closed (chans s c)"
proof (induction cs arbitrary: s)
  case Nil
  then show ?case by simp
next
  case (Cons c cs)
  from Cons.prems have d: "distinct cs" and nc: "c \<notin> set cs" by auto
  from Cons.prems(2) have op: "\<not> closed (chans s c)"
    by (auto simp: try_send_def split: if_splits)
  show ?case
  proof (cases "length (buf (chans s c)) < sendCap")
    case True
    let ?s1 = "s\<lparr>chans := (chans s)(c := (chans s c)\<lparr>buf := buf (chans s c) @ [v]\<rparr>)\<rparr>"
    from Cons.prems True have "fan_out r v cs ?s1 = Inr t"
      by (auto simp: try_send_def split: if_splits)
    from Cons.IH[OF d this] have "\<forall>x \<in> set cs. \<not> closed (chans ?s1 x)" .
    then have "\<forall>x \<in> set cs. \<not> closed (chans s x)" using nc by (auto split: if_splits)
    with op show ?thesis by simp
  next
    case False
    let ?s1 = "s\<lparr>chans := (chans s)(c := (chans s c)\<lparr>closed := True\<rparr>),
                 rooms := (rooms s)(r \<mapsto> removeAll c (room_clients s r)),
                 log := log s @ [LogRemovedFullBuffer (userID (clients s c)) r]\<rparr>"
    from Cons.prems False have "fan_out r v cs ?s1 = Inr t"
      by (auto simp: try_send_def close_chan_def split: if_splits)
    from Cons.IH[OF d this] have "\<forall>x \<in> set cs. \<not> closed (chans ?s1 x)" .
    then have "\<forall>x \<in> set cs. \<not> closed (chans s x)" using nc by (auto split: if_splits)
    with op show ?thesis by simp
  qed
qed

lemma fan_out_rooms:
  assumes "rooms s r = Some l" "distinct cs" "fan_out r v cs s = Inr t"
  shows "rooms t = (rooms s)(r \<mapsto> filter (\<lambda>x. \<not> (x \<in> set cs \<and> full s x)) l)"
proof (rule ext)
  fix r'
  show "rooms t r' = ((rooms s)(r \<mapsto> filter (\<lambda>x. \<not> (x \<in> set cs \<and> full s x)) l)) r'"
  proof (cases "r' = r")
    case False
    with fan_out_rooms_other[OF assms(3) False] show ?thesis by simp
  next
    case True
    from fan_out_rooms_key[OF assms(3)] assms(1) obtain l' where l': "rooms t r = Some l'"
      by auto
    with fan_out_room_clients[OF assms(2,3)] assms(1)
    have "l' = filter (\<lambda>x. \<not> (x \<in> set cs \<and> full s x)) l" by (simp add: room_clients_def)
    with l' True show ?thesis by simp
  qed
qed

lemma fan_out_perm:
  assumes l: "rooms s r = Some l" and d: "distinct cs" and d': "distinct cs'"
    and eq: "set cs = set cs'" and run: "fan_out r v cs s = Inr t"
  shows "\<exists>t'. fan_out r v cs' s = Inr t' \<and> chans t' = chans t \<and> rooms t' = rooms t \<and>
              clients t' = clients t \<and> store_calls t' = store_calls t"
proof -
  from fan_out_open[OF d run] eq have "\<forall>c \<in> set cs'. \<not> closed (chans s c)" by simp
  from fan_out_no_panic[OF d' this] obtain t' where run': "fan_out r v cs' s = Inr t'" by blast
  have "chans t' x = chans t x" for x
    using fan_out_chans[OF d run, of x] fan_out_chans[OF d' run', of x] eq by simp
  then have "chans t' = chans t" by (intro ext)
  moreover have "rooms t' = rooms t"
    using fan_out_rooms[OF l d run] fan_out_rooms[OF l d' run'] eq by simp
  moreover have "clients t' = clients t"
    using fan_out_clients[OF run] fan_out_clients[OF run'] by simp
  moreover have "store_calls t' = store_calls t"
    using fan_out_store_calls[OF run] fan_out_store_calls[OF run'] by simp
  ultimately show ?thesis using run' by blast
qed

section \<open>Registration and deregistration\<close>

lemma register_unfold:
  "registerClient c s =
     broadcastToRoom (roomID (clients s c)) (joinMessage (clients s c))
       (s\<lparr>rooms := (rooms s)(roomID (clients s c) \<mapsto> add_client c (room_clients s (roomID (clients s c)))),
          log := log s @ [LogRegistered (userID (clients s c)) (roomID (clients s c))
                            (length (add_client c (room_clients s (roomID (clients s c)))))]\<rparr>)"
  by (simp add: registerClient_def Let_def room_clients_def add_client_def split: option.splits)

lemma unregister_absent:
  "c \<notin> members s (roomID (clients s c)) \<Longrightarrow> unregisterClient c s = Inr s"
  by (simp add: unregisterClient_def Let_def members_def room_clients_def split: option.splits)

lemma unregister_unfold:
  assumes "c \<in> members s (roomID (clients s c))" "\<not> closed (chans s c)"
  shows "unregisterClient c s =
     broadcastToRoom (roomID (clients s c)) (leaveMessage (clients s c))
       (s\<lparr>rooms := (if removeAll c (room_clients s (roomID (clients s c))) = []
                     then (rooms s)(roomID (clients s c) := None)
                     else (rooms s)(roomID (clients s c) \<mapsto> removeAll c (room_clients s (roomID (clients s c))))),
          chans := (chans s)(c := (chans s c)\<lparr>closed := True\<rparr>),
          log := log s @ [LogUnregistered (userID (clients s c)) (roomID (clients s c))
                            (length (removeAll c (room_clients s (roomID (clients s c)))))] @
                 (if removeAll c (room_clients s (roomID (clients s c))) = []
                  then [LogRoomEmpty (roomID (clients s c))] else [])\<rparr>)"
  using assms
  by (cases s)
     (auto simp: unregisterClient_def Let_def members_def room_clients_def close_chan_def
           split: option.splits)

lemma hub_invI:
  assumes "\<And>r. distinct (room_clients s r)"
    and "\<And>r c. c \<in> members s r \<Longrightarrow> \<not> closed (chans s c) \<and> roomID (clients s c) = r"
  shows "hub_inv s"
  using assms by (simp add: hub_inv_def room_ok_iff)

lemma hub_inv_distinct: "hub_inv s \<Longrightarrow> distinct (room_clients s r)"
  by (simp add: hub_inv_def room_ok_def)

lemma hub_inv_member:
  "hub_inv s \<Longrightarrow> c \<in> members s r \<Longrightarrow> \<not> closed (chans s c) \<and> roomID (clients s c) = r"
  by (simp add: hub_inv_def room_ok_iff)

lemma room_clients_register:
  "room_clients (s\<lparr>rooms := (rooms s)(r \<mapsto> add_client c (room_clients s r)), log := l\<rparr>) r' =
     (if r' = r then add_client c (room_clients s r) else room_clients s r')"
  by (simp add: room_clients_def)

lemma room_clients_unregister:
  "room_clients (s\<lparr>rooms := (if removeAll c (room_clients s r) = []
                     then (rooms s)(r := None)
                     else (rooms s)(r \<mapsto> removeAll c (room_clients s r))),
          chans := ch, log := l\<rparr>) r' =
     (if r' = r then removeAll c (room_clients s r) else room_clients s r')"
  by (simp add: room_clients_def)

lemma set_add_client: "set (add_client c cs) = insert c (set cs)"
  by (auto simp: add_client_def)

lemma distinct_add_client: "distinct cs \<Longrightarrow> distinct (add_client c cs)"
  by (simp add: add_client_def)

lemma register_state_inv:
  assumes inv: "hub_inv s" and op: "\<not> closed (chans s c)"
  shows "hub_inv (s\<lparr>rooms := (rooms s)(roomID (clients s c) \<mapsto> add_client c (room_clients s (roomID (clients s c)))),
                   log := l\<rparr>)" (is "hub_inv ?t")
proof (rule hub_invI)
  fix r show "distinct (room_clients ?t r)"
    using hub_inv_distinct[OF inv] by (simp add: room_clients_register distinct_add_client)
next
  fix r x assume "x \<in> members ?t r"
  then have "x \<in> members s r \<or> (x = c \<and> r = roomID (clients s c))"
    by (auto simp: members_def room_clients_register set_add_client split: if_splits)
  then show "\<not> closed (chans ?t x) \<and> roomID (clients ?t x) = r"
    using hub_inv_member[OF inv] op by auto
qed

lemma register_state_unused:
  assumes "unused s x" "x \<noteq> c"
  shows "unused (s\<lparr>rooms := (rooms s)(roomID (clients s c) \<mapsto> add_client c (room_clients s (roomID (clients s c)))),
                   log := l\<rparr>) x"
  using assms
  by (auto simp: unused_def members_def room_clients_register set_add_client)

lemma unregister_state_inv:
  assumes r: "roomID (clients s c) = r" and inv: "hub_inv s"
  shows "hub_inv (s\<lparr>rooms := (if removeAll c (room_clients s r) = []
                     then (rooms s)(r := None)
                     else (rooms s)(r \<mapsto> removeAll c (room_clients s r))),
          chans := (chans s)(c := (chans s c)\<lparr>closed := True\<rparr>),
          log := l\<rparr>)" (is "hub_inv ?t")
proof (rule hub_invI)
  fix r' show "distinct (room_clients ?t r')"
    using hub_inv_distinct[OF inv, of r'] hub_inv_distinct[OF inv, of r]
    by (simp add: room_clients_unregister distinct_removeAll)
next
  fix r' x assume x: "x \<in> members ?t r'"
  then have mem: "x \<in> members s r'"
    by (auto simp: members_def room_clients_unregister split: if_splits)
  have "x \<noteq> c"
  proof
    assume "x = c"
    with mem hub_inv_member[OF inv] r have "r' = r" by auto
    with x \<open>x = c\<close> show False by (simp add: members_def room_clients_unregister)
  qed
  then show "\<not> closed (chans ?t x) \<and> roomID (clients ?t x) = r'"
    using hub_inv_member[OF inv mem] by simp
qed

lemma unregister_state_unused:
  assumes "unused s x" "c \<in> members s r"
  shows "unused (s\<lparr>rooms := (if removeAll c (room_clients s r) = []
                     then (rooms s)(r := None)
                     else (rooms s)(r \<mapsto> removeAll c (room_clients s r))),
          chans := (chans s)(c := (chans s c)\<lparr>closed := True\<rparr>),
          log := l\<rparr>) x" (is "unused ?t x")
proof -
  from assms have "x \<noteq> c" by (auto simp: unused_def)
  moreover have "x \<notin> members ?t r'" for r'
    using assms(1) by (auto simp: unused_def members_def room_clients_unregister)
  ultimately show ?thesis using assms(1) by (simp add: unused_def)
qed

section \<open>The invariant of the event loop\<close>

lemma hub_inv_room_ok: "hub_inv s \<Longrightarrow> room_ok s r"
  by (simp add: hub_inv_def)

lemma register_ok:
  assumes inv: "hub_inv s" and op: "\<not> closed (chans s c)"
  shows "\<exists>s'. registerClient c s = Inr s' \<and> hub_inv s' \<and> clients s' = clients s \<and>
              (\<forall>x. x \<noteq> c \<and> unused s x \<longrightarrow> unused s' x)"
proof -
  let ?r = "roomID (clients s c)"
  let ?l = "log s @ [LogRegistered (userID (clients s c)) ?r (length (add_client c (room_clients s ?r)))]"
  let ?t = "s\<lparr>rooms := (rooms s)(?r \<mapsto> add_client c (room_clients s ?r)), log := ?l\<rparr>"
  have t: "hub_inv ?t" using register_state_inv[OF inv op] .
  then have "room_ok ?t ?r" by (rule hub_inv_room_ok)
  from broadcast_no_panic[OF this] obtain s'
    where run: "broadcastToRoom ?r (joinMessage (clients s c)) ?t = Inr s'" by blast
  have reg: "registerClient c s = Inr s'" using run by (simp add: register_unfold)
  have "hub_inv s'" using broadcast_inv[OF t run] .
  moreover have "clients s' = clients s" using broadcast_clients[OF run] by simp
  moreover have "unused s' x" if "x \<noteq> c" "unused s x" for x
    using broadcast_unused[OF t run register_state_unused[OF that(2) that(1)]] .
  ultimately show ?thesis using reg by blast
qed

lemma unregister_ok:
  assumes inv: "hub_inv s"
  shows "\<exists>s'. unregisterClient c s = Inr s' \<and> hub_inv s' \<and> clients s' = clients s \<and>
              (\<forall>x. unused s x \<longrightarrow> unused s' x)"
proof (cases "c \<in> members s (roomID (clients s c))")
  case False
  with inv show ?thesis by (simp add: unregister_absent)
next
  case True
  let ?r = "roomID (clients s c)"
  from hub_inv_member[OF inv True] have op: "\<not> closed (chans s c)" by simp
  let ?l = "log s @ [LogUnregistered (userID (clients s c)) ?r
                            (length (removeAll c (room_clients s ?r)))] @
                 (if removeAll c (room_clients s ?r) = [] then [LogRoomEmpty ?r] else [])"
  let ?t = "s\<lparr>rooms := (if removeAll c (room_clients s ?r) = []
                     then (rooms s)(?r := None)
                     else (rooms s)(?r \<mapsto> removeAll c (room_clients s ?r))),
          chans := (chans s)(c := (chans s c)\<lparr>closed := True\<rparr>),
          log := ?l\<rparr>"
  have t: "hub_inv ?t" using unregister_state_inv[OF refl inv] .
  then have "room_ok ?t ?r" by (rule hub_inv_room_ok)
  from broadcast_no_panic[OF this] obtain s'
    where run: "broadcastToRoom ?r (leaveMessage (clients s c)) ?t = Inr s'" by blast
  have unreg: "unregisterClient c s = Inr s'"
    using run unregister_unfold[OF True op] by simp
  have "hub_inv s'" using broadcast_inv[OF t run] .
  moreover have "clients s' = clients s" using broadcast_clients[OF run] by simp
  moreover have "unused s' x" if "unused s x" for x
    using broadcast_unused[OF t run unregister_state_unused[OF that True]] .
  ultimately show ?thesis using unreg by blast
qed

lemma handleBroadcast_unfold:
  "handleBroadcast res m s = broadcastToRoom (RoomID m) m (persist res m s)"
  by (cases s) (simp add: handleBroadcast_def persist_def Let_def split: option.splits)

lemma persist_fields:
  "rooms (persist res m s) = rooms s"
  "chans (persist res m s) = chans s"
  "clients (persist res m s) = clients s"
  by (simp_all add: persist_def)

lemma hub_inv_cong:
  "rooms t = rooms s \<Longrightarrow> clients t = clients s \<Longrightarrow>
   (\<And>c. closed (chans t c) = closed (chans s c)) \<Longrightarrow> hub_inv t = hub_inv s"
  by (simp add: hub_inv_def room_ok_def members_def room_clients_def)

lemma unused_cong:
  "rooms t = rooms s \<Longrightarrow> closed (chans t c) = closed (chans s c) \<Longrightarrow> unused t c = unused s c"
  by (simp add: unused_def members_def room_clients_def)

lemma handleBroadcast_ok:
  assumes inv: "hub_inv s"
  shows "\<exists>s'. handleBroadcast res m s = Inr s' \<and> hub_inv s' \<and> clients s' = clients s \<and>
              (\<forall>x. unused s x \<longrightarrow> unused s' x)"
proof -
  let ?t = "persist res m s"
  have t: "hub_inv ?t" using inv hub_inv_cong[of ?t s] by (simp add: persist_fields)
  have tu: "unused ?t x = unused s x" for x
    by (rule unused_cong) (simp_all add: persist_fields)
  from t have "room_ok ?t (RoomID m)" by (rule hub_inv_room_ok)
  from broadcast_no_panic[OF this] obtain s'
    where run: "broadcastToRoom (RoomID m) m ?t = Inr s'" by blast
  have hb: "handleBroadcast res m s = Inr s'" using run by (simp add: handleBroadcast_unfold)
  have "hub_inv s'" using broadcast_inv[OF t run] .
  moreover have "clients s' = clients s" using broadcast_clients[OF run] by (simp add: persist_fields)
  moreover have "unused s' x" if "unused s x" for x
    using broadcast_unused[OF t run] that tu by simp
  ultimately show ?thesis using hb by blast
qed

lemma writer_recv_fields:
  "rooms (writer_recv c s) = rooms s"
  "clients (writer_recv c s) = clients s"
  "closed (chans (writer_recv c s) x) = closed (chans s x)"
  by (simp_all add: writer_recv_def split: list.splits)

lemma writer_recv_ok:
  "hub_inv (writer_recv c s) = hub_inv s"
  "unused (writer_recv c s) x = unused s x"
  by (rule hub_inv_cong, simp_all add: writer_recv_fields)
     (rule unused_cong, simp_all add: writer_recv_fields)

lemma step_ok:
  assumes "hub_inv s" "\<And>c. e = Register c \<Longrightarrow> unused s c"
  shows "\<exists>s'. step e s = Inr s' \<and> hub_inv s' \<and> clients s' = clients s \<and>
              (\<forall>x. e \<noteq> Register x \<and> unused s x \<longrightarrow> unused s' x)"
proof (cases e)
  case (Register c)
  with assms have "\<not> closed (chans s c)" by (simp add: unused_def)
  from register_ok[OF assms(1) this] Register show ?thesis by auto
next
  case (Unregister c)
  with unregister_ok[OF assms(1), of c] show ?thesis by auto
next
  case (Broadcast m res)
  with handleBroadcast_ok[OF assms(1), of res m] show ?thesis by auto
next
  case (Recv c)
  with assms(1) show ?thesis by (simp add: writer_recv_ok writer_recv_fields)
qed

lemma run_loop_ok:
  "hub_inv s \<Longrightarrow> distinct (registrations es) \<Longrightarrow> \<forall>c \<in> set (registrations es). unused s c \<Longrightarrow>
   \<exists>s'. run_loop es s = Inr s' \<and> hub_inv s'"
proof (induction es arbitrary: s)
  case Nil
  then show ?case by simp
next
  case (Cons e es)
  have "\<And>c. e = Register c \<Longrightarrow> unused s c" using Cons.prems(3) by auto
  from step_ok[OF Cons.prems(1) this] obtain s1 where
    s1: "step e s = Inr s1" "hub_inv s1" and
    keep: "\<forall>x. e \<noteq> Register x \<and> unused s x \<longrightarrow> unused s1 x" by blast
  have d: "distinct (registrations es)" using Cons.prems(2) by (cases e) auto
  have "\<forall>c \<in> set (registrations es). unused s1 c"
  proof
    fix c assume c: "c \<in> set (registrations es)"
    then have "e \<noteq> Register c" using Cons.prems(2) by (cases e) auto
    moreover have "unused s c" using Cons.prems(3) c by (cases e) auto
    ultimately show "unused s1 c" using keep by blast
  qed
  from Cons.IH[OF s1(2) d this] s1(1) show ?case by simp
qed

lemma NewHub_inv: "hub_inv (NewHub heap\<lparr>log := l\<rparr>)" "unused (NewHub heap\<lparr>log := l\<rparr>) c"
  by (simp_all add: hub_inv_def room_ok_def unused_def members_def room_clients_def
        NewHub_def make_chan_def)

lemma Run_ok:
  "distinct (registrations es) \<Longrightarrow> \<exists>s. Run es (NewHub heap) = Inr s \<and> hub_inv s"
  unfolding Run_def by (rule run_loop_ok) (simp_all add: NewHub_inv)

text \<open>
  So the hypothesis \<open>room_ok\<close> of the statements below holds for every room in every state
  that the loop reaches when no connection is registered twice, as in the program, where
  \<^verbatim>\<open>websocketHandler\<close> makes a new \<^verbatim>\<open>Client\<close> for each registration.
\<close>

lemma reachable_room_ok:
  "distinct (registrations es) \<Longrightarrow> Run es (NewHub heap) = Inr s \<Longrightarrow> room_ok s r"
  using Run_ok[of es heap] hub_inv_room_ok by auto

section \<open>The claims\<close>

subsection \<open>Queue teardown never crashes the loop\<close>

text \<open>
  In Go, closing a closed channel and sending on a closed channel both panic, and a panic
  in \<^verbatim>\<open>Hub.Run\<close> ends the process; these are the only two ways the hub's code can panic,
  and in the model they are the results \<open>Inl CloseOfClosedChannel\<close> and
  \<open>Inl SendOnClosedChannel\<close>. Without the precondition the loop does crash:
\<close>

lemmas eval_defs =
  Run_def NewHub_def registerClient_def unregisterClient_def handleBroadcast_def
  broadcastToRoom_def Let_def json_Marshal_def try_send_def close_chan_def room_clients_def
  joinMessage_def leaveMessage_def make_chan_def sendCap_def heap0_def ann_def bob_def
  writer_recv_def

lemma double_registration_panics:
  "Run [Register 0, Unregister 0, Register 0] (NewHub heap0) = Inl SendOnClosedChannel"
  by (simp add: eval_defs)

text \<open>
  C9. When no connection is registered twice, every finite sequence of hub requests,
  interleaved at will with the writers taking frames from their queues, runs to a state:
  no queue is closed a second time and no frame is sent on a closed queue. The state
  reached satisfies \<open>hub_inv\<close>: the members of every room have open queues, so a closed
  queue belongs to a connection that is in no room any more.
\<close>

theorem hub_loop_no_panic:
  assumes "distinct (registrations es)"
  shows "Run es (NewHub heap) \<noteq> Inl CloseOfClosedChannel \<and>
         Run es (NewHub heap) \<noteq> Inl SendOnClosedChannel \<and>
         (\<exists>s. Run es (NewHub heap) = Inr s \<and> hub_inv s)"
proof -
  from Run_ok[OF assms, of heap] obtain s where "Run es (NewHub heap) = Inr s" "hub_inv s"
    by blast
  then show ?thesis by simp
qed

theorem hub_loop_no_panic_witness:
  "distinct (registrations es0) \<and>
   Run es0 (NewHub heap0) \<noteq> Inl CloseOfClosedChannel \<and>
   Run es0 (NewHub heap0) \<noteq> Inl SendOnClosedChannel \<and>
   (\<exists>s. Run es0 (NewHub heap0) = Inr s \<and> hub_inv s)"
  using hub_loop_no_panic[of es0 heap0] by (simp add: es0_def)

subsection \<open>Backpressure\<close>

text \<open>
  C2. In a room whose members have open queues, a broadcast (with or without a failing
  persistence call) returns, and for every member of the room: if its queue holds 256
  frames it is out of the room's set and its queue is closed afterwards; if its queue
  holds fewer it is still a member, its queue is open and has the frame of this broadcast
  appended.
\<close>

theorem broadcast_backpressure:
  assumes ok: "room_ok s (RoomID m)" and v: "json_Marshal m = Inr v"
  shows "\<exists>s'. handleBroadcast res m s = Inr s' \<and>
           (\<forall>c \<in> members s (RoomID m).
              (256 \<le> length (buf (chans s c)) \<longrightarrow>
                 c \<notin> members s' (RoomID m) \<and> closed (chans s' c)) \<and>
              (length (buf (chans s c)) < 256 \<longrightarrow>
                 c \<in> members s' (RoomID m) \<and> \<not> closed (chans s' c) \<and>
                 buf (chans s' c) = buf (chans s c) @ [v]))"
proof -
  let ?t = "persist res m s"
  have ok': "room_ok ?t (RoomID m)"
    using ok by (simp add: room_ok_def room_clients_def persist_fields)
  from broadcast_no_panic[OF ok'] obtain s'
    where run: "broadcastToRoom (RoomID m) m ?t = Inr s'" by blast
  have hb: "handleBroadcast res m s = Inr s'" using run by (simp add: handleBroadcast_unfold)
  have mem_t: "members ?t (RoomID m) = members s (RoomID m)"
    by (simp add: members_def room_clients_def persist_fields)
  have ch: "chans s' c = deliver v (chans s c)" if "c \<in> members s (RoomID m)" for c
    using broadcast_chans[OF ok' v run, of c] that mem_t by (simp add: persist_fields)
  have mem: "members s' (RoomID m) = {x \<in> members s (RoomID m). \<not> full s x}"
    using members_broadcast[OF ok' run] mem_t by (simp add: full_def persist_fields)
  have op: "\<not> closed (chans s c)" if "c \<in> members s (RoomID m)" for c
    using ok that by (simp add: room_ok_iff)
  have "(256 \<le> length (buf (chans s c)) \<longrightarrow>
                 c \<notin> members s' (RoomID m) \<and> closed (chans s' c)) \<and>
              (length (buf (chans s c)) < 256 \<longrightarrow>
                 c \<in> members s' (RoomID m) \<and> \<not> closed (chans s' c) \<and>
                 buf (chans s' c) = buf (chans s c) @ [v])"
    if "c \<in> members s (RoomID m)" for c
    using ch[OF that] op[OF that] mem that
    by (auto simp: deliver_def full_def sendCap_def)
  with hb show ?thesis by blast
qed

theorem broadcast_backpressure_witness:
  "room_ok slow_state (RoomID hello) \<and> json_Marshal hello = Inr hello_frame \<and>
   members slow_state (RoomID hello) = {0, 1} \<and>
   length (buf (chans slow_state 0)) = 256 \<and> length (buf (chans slow_state 1)) = 0 \<and>
   (\<exists>s'. handleBroadcast None hello slow_state = Inr s' \<and>
      0 \<notin> members s' (RoomID hello) \<and> closed (chans s' 0) \<and>
      1 \<in> members s' (RoomID hello) \<and> \<not> closed (chans s' 1) \<and>
      buf (chans s' 1) = [hello_frame])"
proof -
  have h1: "room_ok slow_state (RoomID hello)"
    by (simp add: room_ok_def room_clients_def slow_state_def hello_def chatMessage_def ann_def
          make_chan_def)
  have h2: "json_Marshal hello = Inr hello_frame"
    by (simp add: json_Marshal_def hello_def hello_frame_def chatMessage_def ann_def)
  have h3: "members slow_state (RoomID hello) = {0, 1}"
    by (auto simp: members_def room_clients_def slow_state_def hello_def chatMessage_def ann_def)
  have h4: "length (buf (chans slow_state 0)) = 256" "length (buf (chans slow_state 1)) = 0"
    "buf (chans slow_state 1) = []"
    by (simp_all add: slow_state_def make_chan_def)
  from broadcast_backpressure[OF h1 h2, of None] obtain s' where
    "handleBroadcast None hello slow_state = Inr s'"
    "\<forall>c \<in> members slow_state (RoomID hello).
              (256 \<le> length (buf (chans slow_state c)) \<longrightarrow>
                 c \<notin> members s' (RoomID hello) \<and> closed (chans s' c)) \<and>
              (length (buf (chans slow_state c)) < 256 \<longrightarrow>
                 c \<in> members s' (RoomID hello) \<and> \<not> closed (chans s' c) \<and>
                 buf (chans s' c) = buf (chans slow_state c) @ [hello_frame])"
    by blast
  then show ?thesis using h1 h2 h3 h4 by auto
qed

subsection \<open>Persistence is best effort\<close>

lemma broadcast_rooms:
  assumes ok: "room_ok s r" and run: "broadcastToRoom r m s = Inr s'"
  shows "rooms s' =
           (case rooms s r of None \<Rightarrow> rooms s
            | Some cs \<Rightarrow> (rooms s)(r \<mapsto> filter (\<lambda>x. \<not> full s x) cs))"
proof (rule ext)
  fix r'
  show "rooms s' r' =
           (case rooms s r of None \<Rightarrow> rooms s
            | Some cs \<Rightarrow> (rooms s)(r \<mapsto> filter (\<lambda>x. \<not> full s x) cs)) r'"
  proof (cases "r' = r")
    case False
    with broadcast_rooms_other[OF run False] show ?thesis by (simp split: option.splits)
  next
    case True
    show ?thesis
    proof (cases "rooms s r")
      case None
      with broadcast_rooms_key[OF run] True show ?thesis by simp
    next
      case (Some cs)
      with broadcast_rooms_key[OF run] obtain cs' where cs': "rooms s' r = Some cs'" by auto
      with broadcast_room_clients[OF ok run] Some have "cs' = filter (\<lambda>x. \<not> full s x) cs"
        by (simp add: room_clients_def)
      with cs' Some True show ?thesis by simp
    qed
  qed
qed

lemma broadcast_chans_fun:
  assumes "room_ok s r" "json_Marshal m = Inr v" "broadcastToRoom r m s = Inr s'"
  shows "chans s' = (\<lambda>x. if x \<in> members s r then deliver v (chans s x) else chans s x)"
  using broadcast_chans[OF assms] by (intro ext)

text \<open>
  C3. A broadcast calls the store exactly when the message has the type \<^verbatim>\<open>message\<close>, once,
  with a context derived from \<^verbatim>\<open>context.Background()\<close> (not from any caller's context)
  with a timeout of five seconds (\<open>Second\<close> is \<open>10^9\<close> nanoseconds). Whatever the call
  returns, the broadcast goes on: an error is logged, every member of the room is offered
  the frame (\<open>deliver\<close>: appended, or evicted when its queue is full), nobody else's queue
  changes, and rooms and queues end up exactly as when the store had returned no error.
\<close>

theorem persistence_best_effort:
  assumes ok: "room_ok s (RoomID m)" and v: "json_Marshal m = Inr v"
  shows "\<exists>s'. handleBroadcast res m s = Inr s' \<and>
           store_calls s' = store_calls s @
             (if Type m = ''message'' then [(WithTimeout Background (5 * Second), dbMessage m)]
              else []) \<and>
           (\<forall>err. Type m = ''message'' \<and> res = Some err \<longrightarrow> LogSaveFailed err \<in> set (log s')) \<and>
           (\<forall>c \<in> members s (RoomID m). chans s' c = deliver v (chans s c)) \<and>
           (\<forall>c. c \<notin> members s (RoomID m) \<longrightarrow> chans s' c = chans s c) \<and>
           (\<exists>s0. handleBroadcast None m s = Inr s0 \<and> rooms s' = rooms s0 \<and> chans s' = chans s0)"
proof -
  let ?r = "RoomID m"
  have ok_t: "room_ok (persist x m s) ?r" for x
    using ok by (simp add: room_ok_def room_clients_def persist_fields)
  have mem_t: "members (persist x m s) ?r = members s ?r" for x
    by (simp add: members_def room_clients_def persist_fields)
  have full_t: "full (persist x m s) = full s" for x
    by (simp add: full_def persist_fields fun_eq_iff)
  from broadcast_no_panic[OF ok_t] obtain s'
    where run: "broadcastToRoom ?r m (persist res m s) = Inr s'" by blast
  from broadcast_no_panic[OF ok_t] obtain s0
    where run0: "broadcastToRoom ?r m (persist None m s) = Inr s0" by blast
  have hb: "handleBroadcast res m s = Inr s'" using run by (simp add: handleBroadcast_unfold)
  have hb0: "handleBroadcast None m s = Inr s0" using run0 by (simp add: handleBroadcast_unfold)
  have calls: "store_calls s' = store_calls s @
             (if Type m = ''message'' then [(WithTimeout Background (5 * Second), dbMessage m)]
              else [])"
    using broadcast_store_calls[OF run] by (simp add: persist_def)
  have logged: "LogSaveFailed err \<in> set (log s')" if "Type m = ''message''" "res = Some err" for err
  proof -
    have "LogSaveFailed err \<in> set (log (persist res m s))" using that by (simp add: persist_def)
    with broadcast_log[OF run] show ?thesis by blast
  qed
  have ch: "chans s' = (\<lambda>x. if x \<in> members s ?r then deliver v (chans s x) else chans s x)"
    using broadcast_chans_fun[OF ok_t v run] mem_t by (simp add: persist_fields cong: if_cong)
  have ch0: "chans s0 = (\<lambda>x. if x \<in> members s ?r then deliver v (chans s x) else chans s x)"
    using broadcast_chans_fun[OF ok_t v run0] mem_t by (simp add: persist_fields cong: if_cong)
  have "rooms s' = rooms s0"
    using broadcast_rooms[OF ok_t run] broadcast_rooms[OF ok_t run0]
    by (simp add: persist_fields full_t split: option.splits)
  with hb hb0 calls logged ch ch0 show ?thesis by auto
qed


theorem persistence_best_effort_witness:
  "room_ok slow_state (RoomID hello) \<and> json_Marshal hello = Inr hello_frame \<and>
   Type hello = ''message'' \<and>
   (\<exists>s'. handleBroadcast (Some (Error ''context deadline exceeded'')) hello slow_state = Inr s' \<and>
      store_calls s' = [(WithTimeout Background (5 * Second), dbMessage hello)] \<and>
      LogSaveFailed (Error ''context deadline exceeded'') \<in> set (log s') \<and>
      chans s' 1 = deliver hello_frame (chans slow_state 1) \<and>
      buf (chans s' 1) = [hello_frame] \<and>
      (\<exists>s0. handleBroadcast None hello slow_state = Inr s0 \<and> rooms s' = rooms s0 \<and>
            chans s' = chans s0))"
proof -
  have h1: "room_ok slow_state (RoomID hello)"
    by (simp add: room_ok_def room_clients_def slow_state_def hello_def chatMessage_def ann_def
          make_chan_def)
  have h2: "json_Marshal hello = Inr hello_frame"
    by (simp add: json_Marshal_def hello_def hello_frame_def chatMessage_def ann_def)
  have h3: "Type hello = ''message''" by (simp add: hello_def chatMessage_def)
  have h4: "1 \<in> members slow_state (RoomID hello)"
    by (simp add: members_def room_clients_def slow_state_def hello_def chatMessage_def ann_def)
  have h5: "store_calls slow_state = []"
    "buf (deliver hello_frame (chans slow_state 1)) = [hello_frame]"
    by (simp_all add: slow_state_def deliver_def make_chan_def sendCap_def)
  from persistence_best_effort[OF h1 h2, of "Some (Error ''context deadline exceeded'')"]
  show ?thesis using h1 h2 h3 h4 h5 by auto
qed

subsection \<open>The registry after an eviction\<close>

lemma hello_room: "RoomID hello = 7"
  by (simp add: hello_def chatMessage_def ann_def)

lemma hello_marshal: "json_Marshal hello = Inr hello_frame"
  by (simp add: json_Marshal_def hello_def hello_frame_def chatMessage_def ann_def)

lemma lone_member_ok: "lone_member k s \<Longrightarrow> room_ok (persist res m s) 7"
  by (simp add: lone_member_def room_ok_def room_clients_def persist_fields)

lemma lone_member_members: "lone_member k s \<Longrightarrow> members (persist res m s) 7 = {0}"
  by (simp add: lone_member_def members_def room_clients_def persist_fields)

lemma lone_step:
  assumes l: "lone_member k s" and k: "Suc k < 256"
  shows "\<exists>s'. handleBroadcast res hello s = Inr s' \<and> lone_member (Suc k) s'"
proof -
  let ?t = "persist res hello s"
  note ok = lone_member_ok[OF l, of res hello]
  note mem = lone_member_members[OF l, of res hello]
  from broadcast_no_panic[OF ok] obtain s' where run: "broadcastToRoom 7 hello ?t = Inr s'"
    by blast
  have nf: "\<not> full ?t 0"
    using l k by (simp add: full_def lone_member_def persist_fields sendCap_def)
  have r: "rooms s' 7 = Some [0]"
    using broadcast_rooms[OF ok run] l nf by (simp add: lone_member_def persist_fields)
  have c0: "chans s' 0 = \<lparr>buf = ann_join # replicate (Suc k) hello_frame, closed = False\<rparr>"
    using broadcast_chans[OF ok hello_marshal run, of 0] mem l k
    by (simp add: lone_member_def persist_fields deliver_def sendCap_def replicate_append_same)
  have c1: "chans s' 1 = make_chan"
    using broadcast_chans[OF ok hello_marshal run, of 1] mem l
    by (simp add: lone_member_def persist_fields)
  have cl: "clients s' = heap0"
    using broadcast_clients[OF run] l by (simp add: lone_member_def persist_fields)
  from r c0 c1 cl have "lone_member (Suc k) s'" by (simp add: lone_member_def)
  then show ?thesis using run by (auto simp: handleBroadcast_unfold hello_room)
qed

lemma lone_evict:
  assumes l: "lone_member 255 s"
  shows "\<exists>s'. handleBroadcast res hello s = Inr s' \<and> rooms s' 7 = Some [] \<and>
              closed (chans s' 0)"
proof -
  let ?t = "persist res hello s"
  note ok = lone_member_ok[OF l, of res hello]
  note mem = lone_member_members[OF l, of res hello]
  from broadcast_no_panic[OF ok] obtain s' where run: "broadcastToRoom 7 hello ?t = Inr s'"
    by blast
  have f: "full ?t 0" using l by (simp add: full_def lone_member_def persist_fields sendCap_def)
  have "rooms s' 7 = Some []"
    using broadcast_rooms[OF ok run] l f by (simp add: lone_member_def persist_fields)
  moreover have "closed (chans s' 0)"
    using broadcast_chans[OF ok hello_marshal run, of 0] mem l
    by (simp add: lone_member_def persist_fields deliver_def sendCap_def)
  ultimately show ?thesis using run by (auto simp: handleBroadcast_unfold hello_room)
qed

lemma lone_fill:
  "lone_member k s \<Longrightarrow> k + n < 256 \<Longrightarrow>
   \<exists>s'. run_loop (replicate n (Broadcast hello res)) s = Inr s' \<and> lone_member (k + n) s'"
proof (induction n arbitrary: k s)
  case 0
  then show ?case by simp
next
  case (Suc n)
  from Suc.prems have "Suc k < 256" by simp
  from lone_step[OF Suc.prems(1) this, of res] obtain s1
    where s1: "handleBroadcast res hello s = Inr s1" "lone_member (Suc k) s1" by blast
  from Suc.prems have "Suc k + n < 256" by simp
  from Suc.IH[OF s1(2) this] s1(1) show ?case by simp
qed

lemma run_loop_append:
  "run_loop (xs @ ys) s = (case run_loop xs s of Inl p \<Rightarrow> Inl p | Inr s' \<Rightarrow> run_loop ys s')"
  by (induction xs arbitrary: s) (auto split: sum.splits)

lemma Run_snoc:
  "Run es s = Inr t \<Longrightarrow> Run (es @ [e]) s = step e t"
  by (cases "step e t") (simp_all add: Run_def run_loop_append)

lemma first_registration:
  "\<exists>s1. registerClient 0 (NewHub heap0\<lparr>log := l\<rparr>) = Inr s1 \<and> lone_member 0 s1"
  by (simp add: eval_defs lone_member_def ann_join_def)

lemma fill_events_run:
  "\<exists>s. Run fill_events (NewHub heap0) = Inr s \<and> lone_member 255 s"
proof -
  from first_registration obtain s1
    where s1: "registerClient 0 (NewHub heap0\<lparr>log := log (NewHub heap0) @ [LogHubStarted]\<rparr>) = Inr s1"
      "lone_member 0 s1" by blast
  from lone_fill[OF s1(2), of 255 None] obtain s2
    where s2: "run_loop (replicate 255 (Broadcast hello None)) s1 = Inr s2" "lone_member 255 s2"
    by auto
  have "Run fill_events (NewHub heap0) = Inr s2"
    using s1(1) s2(1) by (simp add: Run_def fill_events_def)
  with s2(2) show ?thesis by blast
qed

text \<open>
  C1. The claim fails on the eviction branch of \<^verbatim>\<open>broadcastToRoom\<close>: it deletes the
  client from the room's set but, unlike \<^verbatim>\<open>unregisterClient\<close>, never deletes the room
  from \<^verbatim>\<open>h.rooms\<close> when the set has become empty. One connection registers in room 7 and
  is sent 256 chat messages that its writer does not take; its queue holds the join frame
  and 255 messages when the last broadcast arrives, which evicts it. Room 7 is then still
  a key of the registry, with no member.
\<close>

theorem eviction_leaves_empty_room:
  "\<exists>s. Run (fill_events @ [Broadcast hello None]) (NewHub heap0) = Inr s \<and>
       rooms s 7 = Some [] \<and> members s 7 = {} \<and> GetRoomClientCount s 7 = 0"
proof -
  from fill_events_run obtain s2
    where s2: "Run fill_events (NewHub heap0) = Inr s2" "lone_member 255 s2" by blast
  from lone_evict[OF s2(2), of None] obtain s3
    where s3: "handleBroadcast None hello s2 = Inr s3" "rooms s3 7 = Some []" by blast
  have "Run (fill_events @ [Broadcast hello None]) (NewHub heap0) = Inr s3"
    using Run_snoc[OF s2(1), of "Broadcast hello None"] s3(1) by simp
  with s3(2) show ?thesis
    by (auto simp: members_def room_clients_def GetRoomClientCount_def)
qed

subsection \<open>The frames on the wire\<close>



lemma fan_out_members_subset:
  "fan_out r v cs s = Inr s' \<Longrightarrow> set (room_clients s' r) \<subseteq> set (room_clients s r)"
proof (induction cs arbitrary: s)
  case Nil
  then show ?case by simp
next
  case (Cons x cs)
  show ?case
  proof (cases "length (buf (chans s x)) < sendCap")
    case True
    let ?s1 = "s\<lparr>chans := (chans s)(x := (chans s x)\<lparr>buf := buf (chans s x) @ [v]\<rparr>)\<rparr>"
    from Cons.prems True have "fan_out r v cs ?s1 = Inr s'"
      by (auto simp: try_send_def split: if_splits)
    from Cons.IH[OF this] show ?thesis by (simp add: room_clients_def)
  next
    case False
    let ?s1 = "s\<lparr>chans := (chans s)(x := (chans s x)\<lparr>closed := True\<rparr>),
                 rooms := (rooms s)(r \<mapsto> removeAll x (room_clients s r)),
                 log := log s @ [LogRemovedFullBuffer (userID (clients s x)) r]\<rparr>"
    from Cons.prems False have "fan_out r v cs ?s1 = Inr s'"
      by (auto simp: try_send_def close_chan_def split: if_splits)
    from Cons.IH[OF this] show ?thesis by (auto simp: room_clients_def)
  qed
qed

lemma broadcast_members_subset:
  "broadcastToRoom r m s = Inr s' \<Longrightarrow> members s' r \<subseteq> members s r"
proof (cases "rooms s r")
  case None
  assume "broadcastToRoom r m s = Inr s'"
  with None show ?thesis by (simp add: broadcastToRoom_def)
next
  case (Some cs)
  assume "broadcastToRoom r m s = Inr s'"
  with Some obtain v t where "fan_out r v cs s = Inr t" "rooms s' = rooms t"
    by (auto simp: broadcastToRoom_def json_Marshal_def split: sum.splits)
  with fan_out_members_subset[of r v cs s t] show ?thesis
    by (simp add: members_def room_clients_def)
qed




subsection \<open>Register\<close>

lemma register_state_room_ok:
  assumes ok: "room_ok s r" and op: "\<not> closed (chans s c)"
  shows "room_ok (s\<lparr>rooms := (rooms s)(r \<mapsto> add_client c (room_clients s r)), log := l\<rparr>) r"
  using assms
  by (auto simp: room_ok_iff members_def room_clients_register distinct_add_client set_add_client)

lemma lone_register_other:
  assumes l: "lone_member 255 s"
  shows "\<exists>s'. registerClient 1 s = Inr s' \<and> members s' 7 = {1} \<and>
              chans s' 0 = \<lparr>buf = ann_join # replicate 255 hello_frame, closed = True\<rparr> \<and>
              buf (chans s' 1) = [bob_join]"
proof -
  have r: "roomID (clients s 1) = 7" and u: "userID (clients s 1) = 2"
    using l by (simp_all add: lone_member_def heap0_def bob_def)
  have rc: "room_clients s 7 = [0]" using l by (simp add: lone_member_def room_clients_def)
  have ok: "room_ok s 7" using l rc by (simp add: room_ok_def lone_member_def)
  have op: "\<not> closed (chans s 1)" using l by (simp add: lone_member_def make_chan_def)
  have v: "json_Marshal (joinMessage (clients s 1)) = Inr bob_join"
    using l by (simp add: json_Marshal_def joinMessage_def lone_member_def heap0_def bob_def
        bob_join_def)
  let ?t = "s\<lparr>rooms := (rooms s)(7 \<mapsto> add_client 1 (room_clients s 7)),
               log := log s @ [LogRegistered 2 7 (length (add_client 1 (room_clients s 7)))]\<rparr>"
  have ok_t: "room_ok ?t 7" using register_state_room_ok[OF ok op] .
  have mem_t: "members ?t 7 = {0, 1}"
    unfolding members_def room_clients_register by (auto simp: set_add_client rc)
  from broadcast_no_panic[OF ok_t] obtain s'
    where run: "broadcastToRoom 7 (joinMessage (clients s 1)) ?t = Inr s'" by blast
  have reg: "registerClient 1 s = Inr s'" unfolding register_unfold r u by (rule run)
  have full_t: "full ?t 0" "\<not> full ?t 1"
    using l by (simp_all add: full_def lone_member_def make_chan_def sendCap_def)
  have "members s' 7 = {x \<in> members ?t 7. \<not> full ?t x}"
    by (rule members_broadcast[OF ok_t run])
  also have "\<dots> = {x \<in> {0, 1}. \<not> full ?t x}" by (simp only: mem_t)
  also have "\<dots> = {1}" using full_t by blast
  finally have m: "members s' 7 = {1}" .
  have c0: "chans s' 0 = \<lparr>buf = ann_join # replicate 255 hello_frame, closed = True\<rparr>"
    using broadcast_chans[OF ok_t v run, of 0] l unfolding mem_t
    by (simp add: lone_member_def deliver_def sendCap_def)
  have c1: "buf (chans s' 1) = [bob_join]"
    using broadcast_chans[OF ok_t v run, of 1] l unfolding mem_t
    by (simp add: lone_member_def deliver_def sendCap_def make_chan_def)
  from reg m c0 c1 show ?thesis by (intro exI[of _ s'] conjI)
qed

lemma lone_register_again:
  assumes l: "lone_member 255 s"
  shows "\<exists>s'. registerClient 0 s = Inr s' \<and> members s' 7 = {} \<and> closed (chans s' 0)"
proof -
  have r: "roomID (clients s 0) = 7" and u: "userID (clients s 0) = 1"
    using l by (simp_all add: lone_member_def heap0_def ann_def)
  have rc: "room_clients s 7 = [0]" using l by (simp add: lone_member_def room_clients_def)
  have ok: "room_ok s 7" using l rc by (simp add: room_ok_def lone_member_def)
  have op: "\<not> closed (chans s 0)" using l by (simp add: lone_member_def)
  obtain v where v: "json_Marshal (joinMessage (clients s 0)) = Inr v"
    by (simp add: json_Marshal_def)
  let ?t = "s\<lparr>rooms := (rooms s)(7 \<mapsto> add_client 0 (room_clients s 7)),
               log := log s @ [LogRegistered 1 7 (length (add_client 0 (room_clients s 7)))]\<rparr>"
  have ok_t: "room_ok ?t 7" using register_state_room_ok[OF ok op] .
  have mem_t: "members ?t 7 = {0}"
    unfolding members_def room_clients_register by (auto simp: set_add_client rc)
  from broadcast_no_panic[OF ok_t] obtain s'
    where run: "broadcastToRoom 7 (joinMessage (clients s 0)) ?t = Inr s'" by blast
  have reg: "registerClient 0 s = Inr s'" unfolding register_unfold r u by (rule run)
  have full_t: "full ?t 0"
    using l by (simp_all add: full_def lone_member_def sendCap_def)
  have "members s' 7 = {x \<in> members ?t 7. \<not> full ?t x}"
    by (rule members_broadcast[OF ok_t run])
  also have "\<dots> = {x \<in> {0}. \<not> full ?t x}" by (simp only: mem_t)
  also have "\<dots> = {}" using full_t by blast
  finally have m: "members s' 7 = {}" .
  have c0: "closed (chans s' 0)"
    using broadcast_chans[OF ok_t v run, of 0] l unfolding mem_t
    by (simp add: lone_member_def deliver_def sendCap_def)
  from reg m c0 show ?thesis by (intro exI[of _ s'] conjI)
qed

text \<open>
  C5, as stated, fails in one point: the join message is not delivered to every connection
  in the room. Connection 0 registers in room 7 and 255 chat messages are broadcast while
  its writer takes nothing (\<open>fill_events\<close>), so its queue holds 256 frames; then connection
  1 registers to room 7. The join broadcast finds the queue of 0 full: 0 receives no join
  frame, has its queue closed and is removed from the room; only connection 1 is left,
  with the join frame. That is the backpressure rule of \<^verbatim>\<open>broadcastToRoom\<close>, which the join
  broadcast goes through like any other.
\<close>

theorem join_delivery_counterexample:
  "\<not> isl (Run fill_events (NewHub heap0)) \<and>
   members (projr (Run fill_events (NewHub heap0))) 7 = {0} \<and>
   \<not> closed (chans (projr (Run fill_events (NewHub heap0))) 0) \<and>
   \<not> isl (Run (fill_events @ [Register 1]) (NewHub heap0)) \<and>
   members (projr (Run (fill_events @ [Register 1]) (NewHub heap0))) 7 = {1} \<and>
   closed (chans (projr (Run (fill_events @ [Register 1]) (NewHub heap0))) 0) \<and>
   bob_join \<notin> set (buf (chans (projr (Run (fill_events @ [Register 1]) (NewHub heap0))) 0)) \<and>
   buf (chans (projr (Run (fill_events @ [Register 1]) (NewHub heap0))) 1) = [bob_join]"
proof -
  from fill_events_run obtain s
    where s: "Run fill_events (NewHub heap0) = Inr s" "lone_member 255 s" by (elim exE conjE)
  from lone_register_other[OF s(2)] obtain s' where
    s': "registerClient 1 s = Inr s'" "members s' 7 = {1}"
      "chans s' 0 = \<lparr>buf = ann_join # replicate 255 hello_frame, closed = True\<rparr>"
      "buf (chans s' 1) = [bob_join]" by (elim exE conjE)
  have run: "Run (fill_events @ [Register 1]) (NewHub heap0) = Inr s'"
    using Run_snoc[OF s(1), of "Register 1"] s'(1) by simp
  have before: "members s 7 = {0}" "\<not> closed (chans s 0)"
    using s(2) by (simp_all add: lone_member_def members_def room_clients_def)
  have nj: "bob_join \<notin> set (buf (chans s' 0))"
    by (simp add: s'(3) bob_join_def ann_join_def hello_frame_def)
  show ?thesis using s(1) run before s'(2,3,4) nj by simp
qed

text \<open>
  C5, amended. In a room whose members have open queues, registering a connection \<open>c\<close>
  with an open queue does not fail; the room is a key of the registry afterwards; the
  frame is the join message of \<open>c\<close> (its room, user id and name, the content
  \<^verbatim>\<open>"<name> joined the room"\<close>, type \<^verbatim>\<open>join\<close>); and every connection of the room, \<open>c\<close>
  included, whose queue holds fewer than 256 frames is a member afterwards with the frame
  appended to its queue, whereas one whose queue is full is evicted with its queue closed
  and unchanged. No other queue changes.
\<close>

theorem register_effect:
  assumes r: "r = roomID (clients s c)" and ok: "room_ok s r" and op: "\<not> closed (chans s c)"
    and v: "json_Marshal (joinMessage (clients s c)) = Inr v"
  shows "\<exists>s'. registerClient c s = Inr s' \<and> rooms s' r \<noteq> None \<and>
           v = [(''room_id'', JNumber r), (''user_id'', JNumber (userID (clients s c))),
                (''username'', JString (username (clients s c))),
                (''content'', JString (username (clients s c) @ '' joined the room'')),
                (''type'', JString ''join'')] \<and>
           (\<forall>x \<in> insert c (members s r).
              (length (buf (chans s x)) < 256 \<longrightarrow>
                 x \<in> members s' r \<and> \<not> closed (chans s' x) \<and>
                 buf (chans s' x) = buf (chans s x) @ [v]) \<and>
              (256 \<le> length (buf (chans s x)) \<longrightarrow>
                 x \<notin> members s' r \<and> closed (chans s' x) \<and>
                 buf (chans s' x) = buf (chans s x))) \<and>
           members s' r \<subseteq> insert c (members s r) \<and>
           (\<forall>x. x \<notin> insert c (members s r) \<longrightarrow> chans s' x = chans s x)"
proof -
  let ?l = "log s @ [LogRegistered (userID (clients s c)) r (length (add_client c (room_clients s r)))]"
  let ?t = "s\<lparr>rooms := (rooms s)(r \<mapsto> add_client c (room_clients s r)), log := ?l\<rparr>"
  have ok_t: "room_ok ?t r" using register_state_room_ok[OF ok op] .
  have mem_t: "members ?t r = insert c (members s r)"
    by (simp add: members_def room_clients_register set_add_client)
  from broadcast_no_panic[OF ok_t] obtain s'
    where run: "broadcastToRoom r (joinMessage (clients s c)) ?t = Inr s'" by blast
  have reg: "registerClient c s = Inr s'" using run r by (simp add: register_unfold)
  have key: "rooms s' r \<noteq> None" using broadcast_rooms_key[OF run] by simp
  have vv: "v = [(''room_id'', JNumber r), (''user_id'', JNumber (userID (clients s c))),
                (''username'', JString (username (clients s c))),
                (''content'', JString (username (clients s c) @ '' joined the room'')),
                (''type'', JString ''join'')]"
    using v r by (simp add: json_Marshal_def joinMessage_def)
  have ch: "chans s' x = (if x \<in> insert c (members s r) then deliver v (chans s x) else chans s x)"
    for x using broadcast_chans[OF ok_t v run, of x] mem_t by simp
  have mem: "members s' r = {x \<in> insert c (members s r). \<not> full s x}"
    using members_broadcast[OF ok_t run] mem_t by (simp add: full_def)
  have opn: "\<not> closed (chans s x)" if "x \<in> insert c (members s r)" for x
    using that ok op by (auto simp: room_ok_iff)
  have each: "(length (buf (chans s x)) < 256 \<longrightarrow>
                 x \<in> members s' r \<and> \<not> closed (chans s' x) \<and>
                 buf (chans s' x) = buf (chans s x) @ [v]) \<and>
              (256 \<le> length (buf (chans s x)) \<longrightarrow>
                 x \<notin> members s' r \<and> closed (chans s' x) \<and>
                 buf (chans s' x) = buf (chans s x))"
    if "x \<in> insert c (members s r)" for x
    using ch[of x] opn[OF that] mem that by (auto simp: deliver_def full_def sendCap_def)
  have sub: "members s' r \<subseteq> insert c (members s r)" using mem by blast
  have rest: "\<forall>x. x \<notin> insert c (members s r) \<longrightarrow> chans s' x = chans s x"
    using ch by simp
  from each have all: "\<forall>x \<in> insert c (members s r).
              (length (buf (chans s x)) < 256 \<longrightarrow>
                 x \<in> members s' r \<and> \<not> closed (chans s' x) \<and>
                 buf (chans s' x) = buf (chans s x) @ [v]) \<and>
              (256 \<le> length (buf (chans s x)) \<longrightarrow>
                 x \<notin> members s' r \<and> closed (chans s' x) \<and>
                 buf (chans s' x) = buf (chans s x))" by blast
  show ?thesis by (intro exI[of _ s'] conjI) (fact reg key vv all sub rest)+
qed

theorem register_effect_witness:
  "7 = roomID (clients lonely_full 1) \<and> room_ok lonely_full 7 \<and>
   \<not> closed (chans lonely_full 1) \<and>
   json_Marshal (joinMessage (clients lonely_full 1)) = Inr bob_join \<and>
   members lonely_full 7 = {0} \<and> length (buf (chans lonely_full 0)) = 256 \<and>
   buf (chans lonely_full 1) = [] \<and>
   (\<exists>s'. registerClient 1 lonely_full = Inr s' \<and> rooms s' 7 \<noteq> None \<and>
      1 \<in> members s' 7 \<and> \<not> closed (chans s' 1) \<and> buf (chans s' 1) = [bob_join] \<and>
      0 \<notin> members s' 7 \<and> closed (chans s' 0))"
proof -
  have h1: "7 = roomID (clients lonely_full 1)"
    by (simp add: lonely_full_def heap0_def bob_def)
  have h2: "room_ok lonely_full 7"
    by (simp add: room_ok_def room_clients_def lonely_full_def)
  have h3: "\<not> closed (chans lonely_full 1)"
    by (simp add: lonely_full_def make_chan_def)
  have h4: "json_Marshal (joinMessage (clients lonely_full 1)) = Inr bob_join"
    by (simp add: json_Marshal_def joinMessage_def lonely_full_def heap0_def bob_def bob_join_def)
  have h5: "members lonely_full 7 = {0}" "length (buf (chans lonely_full 0)) = 256"
    "buf (chans lonely_full 1) = []"
    by (simp_all add: members_def room_clients_def lonely_full_def make_chan_def)
  from register_effect[OF h1 h2 h3 h4] obtain s' where
    a: "registerClient 1 lonely_full = Inr s'" "rooms s' 7 \<noteq> None" and
    b: "\<forall>x \<in> insert 1 (members lonely_full 7).
              (length (buf (chans lonely_full x)) < 256 \<longrightarrow>
                 x \<in> members s' 7 \<and> \<not> closed (chans s' x) \<and>
                 buf (chans s' x) = buf (chans lonely_full x) @ [bob_join]) \<and>
              (256 \<le> length (buf (chans lonely_full x)) \<longrightarrow>
                 x \<notin> members s' 7 \<and> closed (chans s' x) \<and>
                 buf (chans s' x) = buf (chans lonely_full x))"
    by blast
  from b h5 have "1 \<in> members s' 7 \<and> \<not> closed (chans s' 1) \<and> buf (chans s' 1) = [bob_join]"
    "0 \<notin> members s' 7 \<and> closed (chans s' 0)"
    by simp_all
  with a h1 h2 h3 h4 h5 show ?thesis by blast
qed

text \<open>
  C10, as stated, fails in the same point: registering a connection that is already in its
  room can change the room's set, because the join broadcast evicts members whose queue is
  full. After \<open>fill_events\<close> connection 0 is the only member of room 7 and its queue is
  full; registering it again leaves the set empty.
\<close>

theorem duplicate_registration_counterexample:
  "\<not> isl (Run fill_events (NewHub heap0)) \<and>
   0 \<in> members (projr (Run fill_events (NewHub heap0)))
         (roomID (clients (projr (Run fill_events (NewHub heap0))) 0)) \<and>
   members (projr (Run fill_events (NewHub heap0))) 7 = {0} \<and>
   \<not> isl (Run (fill_events @ [Register 0]) (NewHub heap0)) \<and>
   members (projr (Run (fill_events @ [Register 0]) (NewHub heap0))) 7 = {}"
proof -
  from fill_events_run obtain s
    where s: "Run fill_events (NewHub heap0) = Inr s" "lone_member 255 s" by (elim exE conjE)
  from lone_register_again[OF s(2)] obtain s' where
    s': "registerClient 0 s = Inr s'" "members s' 7 = {}" by (elim exE conjE)
  have run: "Run (fill_events @ [Register 0]) (NewHub heap0) = Inr s'"
    using Run_snoc[OF s(1), of "Register 0"] s'(1) by simp
  have before: "members s 7 = {0}" "roomID (clients s 0) = 7"
    using s(2) by (simp_all add: lone_member_def members_def room_clients_def heap0_def ann_def)
  show ?thesis using s(1) run before s'(2) by simp
qed

text \<open>
  C10, amended. Registering a connection that is already in its room adds nothing to the
  set: the call is exactly a broadcast of one more join message to the registry as it was
  (with one more log line). The room's list stays without repetition; it loses the members
  whose queue is full, and when no member's queue is full the registry is unchanged and
  every member has one more join frame queued.
\<close>

theorem duplicate_registration:
  assumes r: "r = roomID (clients s c)" and c: "c \<in> members s r" and ok: "room_ok s r"
    and v: "json_Marshal (joinMessage (clients s c)) = Inr v"
  shows "registerClient c s =
           broadcastToRoom r (joinMessage (clients s c))
             (s\<lparr>log := log s @ [LogRegistered (userID (clients s c)) r
                                  (length (room_clients s r))]\<rparr>) \<and>
         (\<exists>s'. registerClient c s = Inr s' \<and>
            room_clients s' r =
              filter (\<lambda>x. length (buf (chans s x)) < 256) (room_clients s r) \<and>
            distinct (room_clients s' r) \<and>
            (\<forall>x \<in> members s r. chans s' x = deliver v (chans s x)) \<and>
            (\<forall>x. x \<notin> members s r \<longrightarrow> chans s' x = chans s x) \<and>
            ((\<forall>x \<in> members s r. length (buf (chans s x)) < 256) \<longrightarrow>
               rooms s' = rooms s \<and>
               (\<forall>x \<in> members s r. buf (chans s' x) = buf (chans s x) @ [v])))"
proof -
  let ?t = "s\<lparr>log := log s @ [LogRegistered (userID (clients s c)) r (length (room_clients s r))]\<rparr>"
  from c obtain cs where cs: "rooms s r = Some cs" "c \<in> set cs"
    by (cases "rooms s r") (auto simp: members_def room_clients_def)
  then have same: "(rooms s)(r \<mapsto> cs) = rooms s" by (simp add: fun_upd_idem)
  have add: "add_client c cs = cs"
    using cs by (simp add: add_client_def)
  have rc: "room_clients s r = cs" using cs by (simp add: room_clients_def)
  have unfold: "registerClient c s = broadcastToRoom r (joinMessage (clients s c)) ?t"
    unfolding register_unfold r[symmetric] rc add same by simp
  have ok_t: "room_ok ?t r" using ok by (simp add: room_ok_def room_clients_def)
  have mem_t: "members ?t r = members s r" by (simp add: members_def room_clients_def)
  from broadcast_no_panic[OF ok_t] obtain s'
    where run: "broadcastToRoom r (joinMessage (clients s c)) ?t = Inr s'" by blast
  have reg: "registerClient c s = Inr s'" using run unfold by simp
  have ch: "chans s' x = (if x \<in> members s r then deliver v (chans s x) else chans s x)" for x
    using broadcast_chans[OF ok_t v run, of x] mem_t by simp
  have rcs: "room_clients s' r = filter (\<lambda>x. length (buf (chans s x)) < 256) (room_clients s r)"
    using broadcast_room_clients[OF ok_t run]
    by (simp add: full_def sendCap_def room_clients_def)
  have d: "distinct (room_clients s' r)" using rcs ok by (simp add: room_ok_def)
  have a1: "\<forall>x \<in> members s r. chans s' x = deliver v (chans s x)" using ch by simp
  have a2: "\<forall>x. x \<notin> members s r \<longrightarrow> chans s' x = chans s x" using ch by simp
  have a3: "(\<forall>x \<in> members s r. length (buf (chans s x)) < 256) \<longrightarrow>
               rooms s' = rooms s \<and>
               (\<forall>x \<in> members s r. buf (chans s' x) = buf (chans s x) @ [v])"
  proof
    assume nf: "\<forall>x \<in> members s r. length (buf (chans s x)) < 256"
    then have "filter (\<lambda>x. \<not> full ?t x) cs = cs"
      using rc by (auto simp: members_def full_def sendCap_def filter_id_conv)
    with broadcast_rooms[OF ok_t run] cs same have "rooms s' = rooms s" by simp
    moreover have "\<forall>x \<in> members s r. buf (chans s' x) = buf (chans s x) @ [v]"
      using ch nf by (simp add: deliver_def sendCap_def)
    ultimately show "rooms s' = rooms s \<and>
               (\<forall>x \<in> members s r. buf (chans s' x) = buf (chans s x) @ [v])" by simp
  qed
  have ex: "\<exists>s'. registerClient c s = Inr s' \<and>
            room_clients s' r =
              filter (\<lambda>x. length (buf (chans s x)) < 256) (room_clients s r) \<and>
            distinct (room_clients s' r) \<and>
            (\<forall>x \<in> members s r. chans s' x = deliver v (chans s x)) \<and>
            (\<forall>x. x \<notin> members s r \<longrightarrow> chans s' x = chans s x) \<and>
            ((\<forall>x \<in> members s r. length (buf (chans s x)) < 256) \<longrightarrow>
               rooms s' = rooms s \<and>
               (\<forall>x \<in> members s r. buf (chans s' x) = buf (chans s x) @ [v]))"
    by (intro exI[of _ s'] conjI) (fact reg rcs d a1 a2 a3)+
  show ?thesis by (intro conjI) (fact unfold ex)+
qed

theorem duplicate_registration_witness:
  "7 = roomID (clients calm_state 1) \<and> 1 \<in> members calm_state 7 \<and> room_ok calm_state 7 \<and>
   json_Marshal (joinMessage (clients calm_state 1)) = Inr bob_join \<and>
   members calm_state 7 = {0, 1} \<and>
   length (buf (chans calm_state 0)) < 256 \<and> length (buf (chans calm_state 1)) < 256 \<and>
   (\<exists>s'. registerClient 1 calm_state = Inr s' \<and> rooms s' = rooms calm_state \<and>
      room_clients s' 7 = [0, 1] \<and>
      buf (chans s' 0) = [bob_join] \<and> buf (chans s' 1) = [bob_join])"
proof -
  have h1: "7 = roomID (clients calm_state 1)"
    by (simp add: calm_state_def heap0_def bob_def)
  have h2: "1 \<in> members calm_state 7"
    by (simp add: members_def room_clients_def calm_state_def)
  have h3: "room_ok calm_state 7"
    by (simp add: room_ok_def room_clients_def calm_state_def make_chan_def)
  have h4: "json_Marshal (joinMessage (clients calm_state 1)) = Inr bob_join"
    by (simp add: json_Marshal_def joinMessage_def calm_state_def heap0_def bob_def bob_join_def)
  have h5: "members calm_state 7 = {0, 1}" "room_clients calm_state 7 = [0, 1]"
    "\<And>x. buf (chans calm_state x) = []"
    by (auto simp: members_def room_clients_def calm_state_def make_chan_def)
  have h6: "\<forall>x \<in> members calm_state 7. length (buf (chans calm_state x)) < 256"
    by (simp add: h5)
  from duplicate_registration[OF h1 h2 h3 h4] obtain s' where
    a: "registerClient 1 calm_state = Inr s'"
      "room_clients s' 7 =
         filter (\<lambda>x. length (buf (chans calm_state x)) < 256) (room_clients calm_state 7)" and
    b: "(\<forall>x \<in> members calm_state 7. length (buf (chans calm_state x)) < 256) \<longrightarrow>
               rooms s' = rooms calm_state \<and>
               (\<forall>x \<in> members calm_state 7.
                  buf (chans s' x) = buf (chans calm_state x) @ [bob_join])"
    by blast
  from a(2) have "room_clients s' 7 = [0, 1]" by (simp add: h5)
  moreover from b h6 have "rooms s' = rooms calm_state"
    "buf (chans s' 0) = [bob_join]" "buf (chans s' 1) = [bob_join]"
    by (simp_all add: h5)
  ultimately have "\<exists>s'. registerClient 1 calm_state = Inr s' \<and> rooms s' = rooms calm_state \<and>
      room_clients s' 7 = [0, 1] \<and>
      buf (chans s' 0) = [bob_join] \<and> buf (chans s' 1) = [bob_join]"
    using a(1) by (intro exI[of _ s'] conjI)
  moreover have "length (buf (chans calm_state 0)) < 256" "length (buf (chans calm_state 1)) < 256"
    by (simp_all add: h5)
  ultimately show ?thesis using h1 h2 h3 h4 h5(1) by (intro conjI)
qed

subsection \<open>Unregister\<close>

lemma unregister_closed:
  "c \<in> members s (roomID (clients s c)) \<Longrightarrow> closed (chans s c) \<Longrightarrow>
   unregisterClient c s = Inl CloseOfClosedChannel"
  by (cases "rooms s (roomID (clients s c))")
     (auto simp: unregisterClient_def Let_def members_def room_clients_def close_chan_def)

lemma unregister_twice:
  assumes "unregisterClient c s = Inr s'"
  shows "unregisterClient c s' = Inr s'"
proof (cases "c \<in> members s (roomID (clients s c))")
  case False
  with assms show ?thesis by (simp add: unregister_absent)
next
  case True
  let ?r = "roomID (clients s c)"
  have op: "\<not> closed (chans s c)" using unregister_closed[OF True] assms by auto
  let ?t = "s\<lparr>rooms := (if removeAll c (room_clients s ?r) = []
                     then (rooms s)(?r := None)
                     else (rooms s)(?r \<mapsto> removeAll c (room_clients s ?r))),
          chans := (chans s)(c := (chans s c)\<lparr>closed := True\<rparr>),
          log := log s @ [LogUnregistered (userID (clients s c)) ?r
                            (length (removeAll c (room_clients s ?r)))] @
                 (if removeAll c (room_clients s ?r) = [] then [LogRoomEmpty ?r] else [])\<rparr>"
  from unregister_unfold[OF True op] assms
  have run: "broadcastToRoom ?r (leaveMessage (clients s c)) ?t = Inr s'" by simp
  have "c \<notin> members ?t ?r" by (simp add: members_def room_clients_unregister)
  with broadcast_members_subset[OF run] have "c \<notin> members s' ?r" by blast
  moreover have "clients s' = clients s" using broadcast_clients[OF run] by simp
  ultimately show ?thesis by (simp add: unregister_absent)
qed

lemma unregister_present:
  assumes c: "c \<in> members s (roomID (clients s c))" and ok: "room_ok s (roomID (clients s c))"
    and v: "json_Marshal (leaveMessage (clients s c)) = Inr v"
  shows "\<exists>s'. unregisterClient c s = Inr s' \<and>
         c \<notin> members s' (roomID (clients s c)) \<and> closed (chans s' c) \<and>
         buf (chans s' c) = buf (chans s c) \<and>
         (rooms s' (roomID (clients s c)) = None) = (members s (roomID (clients s c)) = {c}) \<and>
         members s' (roomID (clients s c)) =
           {x \<in> members s (roomID (clients s c)) - {c}. length (buf (chans s x)) < 256} \<and>
         (\<forall>x \<in> members s (roomID (clients s c)) - {c}. chans s' x = deliver v (chans s x)) \<and>
         (\<forall>x. x \<notin> members s (roomID (clients s c)) \<longrightarrow> chans s' x = chans s x) \<and>
         (\<forall>r'. r' \<noteq> roomID (clients s c) \<longrightarrow> rooms s' r' = rooms s r') \<and>
         (''type'', JString ''leave'') \<in> set v"
proof -
  let ?r = "roomID (clients s c)"
  have op: "\<not> closed (chans s c)" using ok c by (simp add: room_ok_iff)
  let ?l = "log s @ [LogUnregistered (userID (clients s c)) ?r
                            (length (removeAll c (room_clients s ?r)))] @
                 (if removeAll c (room_clients s ?r) = [] then [LogRoomEmpty ?r] else [])"
  let ?t = "s\<lparr>rooms := (if removeAll c (room_clients s ?r) = []
                     then (rooms s)(?r := None)
                     else (rooms s)(?r \<mapsto> removeAll c (room_clients s ?r))),
          chans := (chans s)(c := (chans s c)\<lparr>closed := True\<rparr>),
          log := ?l\<rparr>"
  have rc_t: "room_clients ?t ?r = removeAll c (room_clients s ?r)"
    by (simp add: room_clients_unregister)
  have mem_t: "members ?t ?r = members s ?r - {c}"
    unfolding members_def rc_t by simp
  have ch_t: "chans ?t x = (if x = c then (chans s c)\<lparr>closed := True\<rparr> else chans s x)" for x
    by simp
  have ok_t: "room_ok ?t ?r"
    unfolding room_ok_iff rc_t mem_t using ok by (auto simp: room_ok_iff distinct_removeAll)
  from broadcast_no_panic[OF ok_t] obtain s'
    where run: "broadcastToRoom ?r (leaveMessage (clients s c)) ?t = Inr s'" by blast
  have unreg: "unregisterClient c s = Inr s'"
    using run unregister_unfold[OF c op] by simp
  have ch: "chans s' x = (if x \<in> members s ?r - {c} then deliver v (chans ?t x) else chans ?t x)"
    for x using broadcast_chans[OF ok_t v run, of x] unfolding mem_t .
  have mem: "members s' ?r = {x \<in> members s ?r - {c}. length (buf (chans s x)) < 256}"
    using members_broadcast[OF ok_t run] unfolding mem_t by (auto simp: full_def sendCap_def)
  have p1: "c \<notin> members s' ?r" using mem by simp
  have p2: "closed (chans s' c)" "buf (chans s' c) = buf (chans s c)" using ch[of c] by simp_all
  have "(rooms ?t ?r = None) = (removeAll c (room_clients s ?r) = [])" by simp
  also have "\<dots> = (members s ?r \<subseteq> {c})"
    by (auto simp: members_def removeAll_filter_not_eq filter_empty_conv)
  also have "\<dots> = (members s ?r = {c})" using c by auto
  finally have p3: "(rooms s' ?r = None) = (members s ?r = {c})"
    using broadcast_rooms_key[OF run] by simp
  have p4: "\<forall>x \<in> members s ?r - {c}. chans s' x = deliver v (chans s x)"
    using ch by simp
  have p5: "\<forall>x. x \<notin> members s ?r \<longrightarrow> chans s' x = chans s x"
    using ch c by auto
  have p6: "\<forall>r'. r' \<noteq> ?r \<longrightarrow> rooms s' r' = rooms s r'"
    using broadcast_rooms_other[OF run] by simp
  have p7: "(''type'', JString ''leave'') \<in> set v"
    using v by (auto simp: json_Marshal_def leaveMessage_def)
  show ?thesis
    by (intro exI[of _ s'] conjI) (fact unreg p1 p2 p3 mem p4 p5 p6 p7)+
qed

text \<open>
  C6. (1) When \<open>c\<close> is not in the set of its room, \<^verbatim>\<open>unregisterClient\<close> returns the state
  as it was: registry, queues, closed flags and log. (2) A second call after a call that
  returned changes nothing more. (3) When \<open>c\<close> is in its room, whose members have open
  queues, the call returns; \<open>c\<close> is out of the set and its queue is closed with its
  content kept; the room's key is deleted exactly when \<open>c\<close> was the only member; the
  leave frame is offered to every other member (appended, or the member is evicted when its
  queue is full); nothing else changes.
\<close>

theorem unregister_idempotent:
  "(c \<notin> members s (roomID (clients s c)) \<longrightarrow> unregisterClient c s = Inr s) \<and>
   (\<forall>s'. unregisterClient c s = Inr s' \<longrightarrow> unregisterClient c s' = Inr s') \<and>
   (c \<in> members s r \<and> r = roomID (clients s c) \<and> room_ok s r \<and>
    json_Marshal (leaveMessage (clients s c)) = Inr v \<longrightarrow>
      (\<exists>s'. unregisterClient c s = Inr s' \<and>
         c \<notin> members s' r \<and> closed (chans s' c) \<and> buf (chans s' c) = buf (chans s c) \<and>
         (rooms s' r = None) = (members s r = {c}) \<and>
         members s' r = {x \<in> members s r - {c}. length (buf (chans s x)) < 256} \<and>
         (\<forall>x \<in> members s r - {c}. chans s' x = deliver v (chans s x)) \<and>
         (\<forall>x. x \<notin> members s r \<longrightarrow> chans s' x = chans s x) \<and>
         (\<forall>r'. r' \<noteq> r \<longrightarrow> rooms s' r' = rooms s r') \<and>
         (''type'', JString ''leave'') \<in> set v))"
proof (intro conjI impI allI)
  assume "c \<notin> members s (roomID (clients s c))"
  then show "unregisterClient c s = Inr s" by (rule unregister_absent)
next
  fix s' assume "unregisterClient c s = Inr s'"
  then show "unregisterClient c s' = Inr s'" by (rule unregister_twice)
next
  assume hyp: "c \<in> members s r \<and> r = roomID (clients s c) \<and> room_ok s r \<and>
    json_Marshal (leaveMessage (clients s c)) = Inr v"
  then have r: "r = roomID (clients s c)" by blast
  from hyp have "c \<in> members s (roomID (clients s c))" "room_ok s (roomID (clients s c))"
    "json_Marshal (leaveMessage (clients s c)) = Inr v" unfolding r by blast+
  from unregister_present[OF this]
  show "\<exists>s'. unregisterClient c s = Inr s' \<and>
         c \<notin> members s' r \<and> closed (chans s' c) \<and> buf (chans s' c) = buf (chans s c) \<and>
         (rooms s' r = None) = (members s r = {c}) \<and>
         members s' r = {x \<in> members s r - {c}. length (buf (chans s x)) < 256} \<and>
         (\<forall>x \<in> members s r - {c}. chans s' x = deliver v (chans s x)) \<and>
         (\<forall>x. x \<notin> members s r \<longrightarrow> chans s' x = chans s x) \<and>
         (\<forall>r'. r' \<noteq> r \<longrightarrow> rooms s' r' = rooms s r') \<and>
         (''type'', JString ''leave'') \<in> set v"
    unfolding r .
qed

theorem unregister_idempotent_witness:
  "5 \<notin> members calm_state (roomID (clients calm_state 5)) \<and>
   unregisterClient 5 calm_state = Inr calm_state \<and>
   0 \<in> members calm_state 7 \<and> 7 = roomID (clients calm_state 0) \<and> room_ok calm_state 7 \<and>
   json_Marshal (leaveMessage (clients calm_state 0)) = Inr ann_leave \<and>
   (\<exists>s'. unregisterClient 0 calm_state = Inr s' \<and> unregisterClient 0 s' = Inr s' \<and>
      0 \<notin> members s' 7 \<and> closed (chans s' 0) \<and> members s' 7 = {1} \<and>
      rooms s' 7 \<noteq> None \<and> buf (chans s' 1) = [ann_leave])"
proof -
  have h0: "5 \<notin> members calm_state (roomID (clients calm_state 5))"
    by (simp add: members_def room_clients_def calm_state_def heap0_def bob_def)
  have h1: "0 \<in> members calm_state 7"
    by (simp add: members_def room_clients_def calm_state_def)
  have h2: "7 = roomID (clients calm_state 0)"
    by (simp add: calm_state_def heap0_def ann_def)
  have h3: "room_ok calm_state 7"
    by (simp add: room_ok_def room_clients_def calm_state_def make_chan_def)
  have h4: "json_Marshal (leaveMessage (clients calm_state 0)) = Inr ann_leave"
    by (simp add: json_Marshal_def leaveMessage_def calm_state_def heap0_def ann_def ann_leave_def)
  have h5: "members calm_state 7 = {0, 1}" "\<And>x. buf (chans calm_state x) = []"
    by (auto simp: members_def room_clients_def calm_state_def make_chan_def)
  have a: "unregisterClient 5 calm_state = Inr calm_state"
    using unregister_idempotent[of 5 calm_state, THEN conjunct1, THEN mp, OF h0] .
  note third = unregister_idempotent[of 0 calm_state 7 ann_leave, THEN conjunct2,
      THEN conjunct2, THEN mp, OF conjI[OF h1 conjI[OF h2 conjI[OF h3 h4]]]]
  from third obtain s' where
    b: "unregisterClient 0 calm_state = Inr s'" "0 \<notin> members s' 7" "closed (chans s' 0)"
      "(rooms s' 7 = None) = (members calm_state 7 = {0})"
      "members s' 7 = {x \<in> members calm_state 7 - {0}. length (buf (chans calm_state x)) < 256}"
      "\<forall>x \<in> members calm_state 7 - {0}. chans s' x = deliver ann_leave (chans calm_state x)"
    by (elim exE conjE)
  have c: "unregisterClient 0 s' = Inr s'"
    using unregister_idempotent[of 0 calm_state, THEN conjunct2, THEN conjunct1, THEN spec,
        THEN mp, OF b(1)] .
  have "members s' 7 = {1}" using b(5) by (auto simp: h5)
  moreover have "rooms s' 7 \<noteq> None" using b(4) by (simp add: h5)
  moreover have "buf (chans s' 1) = [ann_leave]"
    using b(6) by (simp add: h5 deliver_def sendCap_def)
  ultimately have "\<exists>s'. unregisterClient 0 calm_state = Inr s' \<and> unregisterClient 0 s' = Inr s' \<and>
      0 \<notin> members s' 7 \<and> closed (chans s' 0) \<and> members s' 7 = {1} \<and>
      rooms s' 7 \<noteq> None \<and> buf (chans s' 1) = [ann_leave]"
    using b(1,2,3) c by (intro exI[of _ s'] conjI)
  with h0 h1 h2 h3 h4 a show ?thesis by (intro conjI)
qed

subsection \<open>The reader\<close>

lemma read_loop_ok:
  "read_loop cl (map ReadOK ms) = (map (\<lambda>b. ToBroadcast (chatMessage cl b)) ms, False)"
  by (induction ms) simp_all

lemma read_loop_err:
  "read_loop cl (map ReadOK ms @ ReadErr err u # rest) =
     (map (\<lambda>b. ToBroadcast (chatMessage cl b)) ms @ (if u then [LogWebSocketError err] else []),
      True)"
  by (induction ms) simp_all

text \<open>
  C7, as stated, fails: \<^verbatim>\<open>readPump\<close> has no way to discard a frame and go on. A frame that
  \<^verbatim>\<open>ReadMessage\<close> rejects comes back as an error, and any error leaves the loop: the
  reader submits \<^verbatim>\<open>Unregister\<close>, closes the socket, and the frames behind it are never
  read (first equation). A frame that \<^verbatim>\<open>ReadMessage\<close> returns is never inspected: whatever
  its bytes are, they become the content of a chat message for the hub (second equation).
\<close>

theorem malformed_frame_counterexample:
  "readPump 0 ann [ReadOK ''hi'', ReadErr (Error ''websocket: bad opcode'') True, ReadOK ''later''] =
     [SetReadLimit maxMessageSize, SetReadDeadline, SetPongHandler,
      ToBroadcast (chatMessage ann ''hi''),
      LogWebSocketError (Error ''websocket: bad opcode''), ToUnregister 0, ConnClose] \<and>
   readPump 0 ann [ReadOK ''{not json'', ReadOK ''later''] =
     [SetReadLimit maxMessageSize, SetReadDeadline, SetPongHandler,
      ToBroadcast (chatMessage ann ''{not json''), ToBroadcast (chatMessage ann ''later'')]"
  by (simp add: readPump_def)

text \<open>
  C7, amended. The reader forwards every frame that \<^verbatim>\<open>ReadMessage\<close> returns, in order, as
  a chat message carrying the frame's bytes and the connection's room, user id and name,
  and discards none. At the first read error it leaves the loop, logs the error when it is
  an unexpected close, submits \<^verbatim>\<open>Unregister\<close> for its connection and closes the socket;
  whatever the peer sent after that is not processed.
\<close>

theorem reader_behaviour:
  "readPump c cl (map ReadOK ms) =
     [SetReadLimit maxMessageSize, SetReadDeadline, SetPongHandler] @
     map (\<lambda>b. ToBroadcast (chatMessage cl b)) ms \<and>
   readPump c cl (map ReadOK ms @ ReadErr err u # rest) =
     [SetReadLimit maxMessageSize, SetReadDeadline, SetPongHandler] @
     map (\<lambda>b. ToBroadcast (chatMessage cl b)) ms @
     (if u then [LogWebSocketError err] else []) @ [ToUnregister c, ConnClose]"
  by (simp add: readPump_def read_loop_ok read_loop_err)

subsection \<open>Message history\<close>

lemma scan_rows_ok: "scan_rows (map Inr ms) acc = Inr (acc @ ms)"
  by (induction ms arbitrary: acc) simp_all

declare reverse_slice.simps [simp del]

lemma reverse_slice_middle:
  "reverse_slice (int (length a)) (int (length a) + int (length m) - 1) (a @ m @ b) =
     a @ rev m @ b"
proof (induction m arbitrary: a b rule: length_induct)
  case (1 m)
  show ?case
  proof (cases m)
    case Nil
    then show ?thesis by (subst reverse_slice.simps) simp
  next
    case (Cons x m1)
    show ?thesis
    proof (cases m1 rule: rev_cases)
      case Nil
      with Cons show ?thesis by (subst reverse_slice.simps) simp
    next
      case (snoc m2 y)
      have len: "length m2 < length m" using Cons snoc by simp
      have lt: "int (length a) < int (length a) + int (length m) - 1"
        using Cons snoc by simp
      have j: "nat (int (length a) + int (length m) - 1) = length a + length m2 + 1"
        using Cons snoc by simp
      have swap: "(a @ m @ b)[nat (int (length a)) := (a @ m @ b) ! nat (int (length a) + int (length m) - 1),
                    nat (int (length a) + int (length m) - 1) := (a @ m @ b) ! nat (int (length a))] =
                  (a @ [y]) @ m2 @ ([x] @ b)"
        unfolding j using Cons snoc
        by (simp add: nth_append list_update_append)
      have idx: "int (length a) + 1 = int (length (a @ [y]))"
        "int (length a) + int (length m) - 1 - 1 = int (length (a @ [y])) + int (length m2) - 1"
        using Cons snoc by simp_all
      have "reverse_slice (int (length a)) (int (length a) + int (length m) - 1) (a @ m @ b) =
            reverse_slice (int (length (a @ [y]))) (int (length (a @ [y])) + int (length m2) - 1)
              ((a @ [y]) @ m2 @ ([x] @ b))"
        by (subst reverse_slice.simps) (simp only: lt if_True swap idx)
      also have "\<dots> = (a @ [y]) @ rev m2 @ ([x] @ b)"
        using "1.IH" len by blast
      finally show ?thesis using Cons snoc by simp
    qed
  qed
qed

lemma reverse_slice_rev: "reverse_slice 0 (int (length xs) - 1) xs = rev xs"
  using reverse_slice_middle[of "[]" xs "[]"] by simp

lemma GetRoomMessages_pg:
  "0 \<le> limit \<Longrightarrow>
   GetRoomMessages (pg_query db) rid limit =
     Inr (rev (take (nat limit) (newest_first (joined db rid))))"
  by (simp add: GetRoomMessages_def pg_query_def scan_rows_ok reverse_slice_rev del: length_take)

lemma newest_first_sorted:
  "sorted_wrt (\<lambda>a b. st_CreatedAt b \<le> st_CreatedAt a) (newest_first ms)"
proof -
  have "sorted (map (\<lambda>m. - st_CreatedAt m) (newest_first ms))"
    unfolding newest_first_def by (rule sorted_sort_key)
  then show ?thesis by (simp add: sorted_map)
qed

lemma joined_rows:
  assumes "x \<in> set (joined db rid)"
  shows "st_RoomID x = rid \<and>
         (\<exists>m \<in> set (messages_tbl db). \<exists>u \<in> set (users_tbl db).
            m_room_id m = rid \<and> u_id u = m_user_id m \<and> x = join_row m u)"
proof -
  from assms obtain m u where "m \<in> set (messages_tbl db)" "m_room_id m = rid"
    "u \<in> set (users_tbl db)" "m_user_id m = u_id u" "x = join_row m u"
    by (auto simp: joined_def)
  then have "st_RoomID x = rid" by (simp add: join_row_def)
  moreover have "\<exists>m \<in> set (messages_tbl db). \<exists>u \<in> set (users_tbl db).
            m_room_id m = rid \<and> u_id u = m_user_id m \<and> x = join_row m u"
    using \<open>m \<in> set (messages_tbl db)\<close> \<open>m_room_id m = rid\<close> \<open>u \<in> set (users_tbl db)\<close>
      \<open>m_user_id m = u_id u\<close> \<open>x = join_row m u\<close> by metis
  ultimately show ?thesis by simp
qed

lemma unique_match:
  "distinct (map f xs) \<Longrightarrow> a \<in> f ` set xs \<Longrightarrow> \<exists>u. filter (\<lambda>u. a = f u) xs = [u] \<and> f u = a"
proof (induction xs)
  case Nil
  then show ?case by simp
next
  case (Cons x xs)
  show ?case
  proof (cases "a = f x")
    case True
    with Cons.prems have "filter (\<lambda>u. a = f u) xs = []"
      by (auto simp: filter_empty_conv)
    with True show ?thesis by simp
  next
    case False
    with Cons show ?thesis by auto
  qed
qed

lemma joined_all_messages:
  assumes pk: "distinct (map u_id (users_tbl db))"
    and fk: "\<forall>m \<in> set (messages_tbl db). m_user_id m \<in> u_id ` set (users_tbl db)"
  shows "map st_ID (joined db rid) =
           map m_id (filter (\<lambda>m. m_room_id m = rid) (messages_tbl db))"
proof -
  have one: "map (st_ID \<circ> join_row m) (filter (\<lambda>u. m_user_id m = u_id u) (users_tbl db)) = [m_id m]"
    if "m \<in> set (messages_tbl db)" for m
  proof -
    from fk that have "m_user_id m \<in> u_id ` set (users_tbl db)" by blast
    from unique_match[OF pk this] obtain u
      where "filter (\<lambda>u. m_user_id m = u_id u) (users_tbl db) = [u]" by blast
    then show ?thesis by (simp add: join_row_def)
  qed
  have "map st_ID (concat (map (\<lambda>m. map (join_row m)
            (filter (\<lambda>u. m_user_id m = u_id u) (users_tbl db))) ms)) = map m_id ms"
    if "set ms \<subseteq> set (messages_tbl db)" for ms
    using that by (induction ms) (simp_all add: one)
  from this[of "filter (\<lambda>m. m_room_id m = rid) (messages_tbl db)"]
  show ?thesis by (simp add: joined_def)
qed

text \<open>
  C8. For a member of the room, with a store that answers the query, the handler answers
  200 with the list \<open>ms\<close> which is the reversal of the newest-first query cut at 100 rows.
  \<open>ms\<close> together with the rows left out (\<open>older\<close>) are the room's records; \<open>ms\<close> has 100
  of them, or all when there are fewer; it is in ascending order of \<^verbatim>\<open>created_at\<close>; no row
  left out is newer than a row of \<open>ms\<close>; every row of \<open>ms\<close> is a message of this room
  joined with the user row of its sender, hence with the sender's name. When user ids are
  unique and every message has its sender in \<^verbatim>\<open>users\<close> (the primary and foreign keys of the
  schema), the room's records are exactly the room's rows of \<^verbatim>\<open>messages\<close>, one each.
\<close>

theorem history_retrieval:
  assumes member: "isUserInRoom rid uid = Inr True"
  shows "\<exists>ms older.
           getRoomMessagesHandler (Inr uid) (Inr rid) isUserInRoom (pg_query db) =
             MessagesResponse 200 ms \<and>
           ms = rev (take 100 (newest_first (joined db rid))) \<and>
           mset (ms @ older) = mset (joined db rid) \<and>
           length ms = min 100 (length (joined db rid)) \<and>
           sorted (map st_CreatedAt ms) \<and>
           (\<forall>x \<in> set ms. \<forall>y \<in> set older. st_CreatedAt y \<le> st_CreatedAt x) \<and>
           (\<forall>x \<in> set ms. st_RoomID x = rid \<and>
              (\<exists>m \<in> set (messages_tbl db). \<exists>u \<in> set (users_tbl db).
                 m_room_id m = rid \<and> u_id u = m_user_id m \<and> x = join_row m u)) \<and>
           (distinct (map u_id (users_tbl db)) \<and>
            (\<forall>m \<in> set (messages_tbl db). m_user_id m \<in> u_id ` set (users_tbl db)) \<longrightarrow>
              map st_ID (joined db rid) =
                map m_id (filter (\<lambda>m. m_room_id m = rid) (messages_tbl db)))"
proof -
  let ?l = "newest_first (joined db rid)"
  let ?ms = "rev (take 100 ?l)"
  let ?older = "drop 100 ?l"
  have get: "GetRoomMessages (pg_query db) rid 100 = Inr ?ms"
    using GetRoomMessages_pg[of 100 db rid] by simp
  have resp: "getRoomMessagesHandler (Inr uid) (Inr rid) isUserInRoom (pg_query db) =
             MessagesResponse 200 ?ms"
    by (simp add: getRoomMessagesHandler_def member get)
  have "mset (?ms @ ?older) = mset (take 100 ?l @ drop 100 ?l)"
    by (simp del: append_take_drop_id)
  also have "\<dots> = mset ?l" by (simp only: append_take_drop_id)
  also have "\<dots> = mset (joined db rid)" by (simp add: newest_first_def)
  finally have perm: "mset (?ms @ ?older) = mset (joined db rid)" .
  have len: "length ?ms = min 100 (length (joined db rid))"
    by (simp add: newest_first_def min.commute)
  note s = newest_first_sorted[of "joined db rid"]
  have "sorted_wrt (\<lambda>a b. st_CreatedAt b \<le> st_CreatedAt a) (take 100 ?l)"
    using s by (rule sorted_wrt_take)
  then have srt: "sorted (map st_CreatedAt ?ms)"
    by (simp add: sorted_map sorted_wrt_rev)
  have "sorted_wrt (\<lambda>a b. st_CreatedAt b \<le> st_CreatedAt a) (take 100 ?l @ drop 100 ?l)"
    using s by simp
  then have recent: "\<forall>x \<in> set ?ms. \<forall>y \<in> set ?older. st_CreatedAt y \<le> st_CreatedAt x"
    unfolding sorted_wrt_append by simp
  have "set ?ms \<subseteq> set (joined db rid)"
    using set_take_subset[of 100 ?l] by (simp add: newest_first_def)
  then have rows: "\<forall>x \<in> set ?ms. st_RoomID x = rid \<and>
              (\<exists>m \<in> set (messages_tbl db). \<exists>u \<in> set (users_tbl db).
                 m_room_id m = rid \<and> u_id u = m_user_id m \<and> x = join_row m u)"
    using joined_rows[of _ db rid] by blast
  have all: "distinct (map u_id (users_tbl db)) \<and>
            (\<forall>m \<in> set (messages_tbl db). m_user_id m \<in> u_id ` set (users_tbl db)) \<longrightarrow>
              map st_ID (joined db rid) =
                map m_id (filter (\<lambda>m. m_room_id m = rid) (messages_tbl db))"
    using joined_all_messages[of db rid] by blast
  show ?thesis
    by (intro exI[of _ ?ms] exI[of _ ?older] conjI) (fact resp refl perm len srt recent rows all)+
qed

theorem history_retrieval_witness:
  "member0 7 1 = Inr True \<and>
   getRoomMessagesHandler (Inr 1) (Inr 7) member0 (pg_query db0) =
     MessagesResponse 200
       [\<lparr>st_ID = 3, st_RoomID = 7, st_UserID = 2, st_Content = ''hi ann'', st_Username = ''bob'',
          st_CreatedAt = 20\<rparr>,
        \<lparr>st_ID = 1, st_RoomID = 7, st_UserID = 1, st_Content = ''hello'', st_Username = ''ann'',
          st_CreatedAt = 30\<rparr>]"
proof -
  have h: "member0 7 1 = Inr True" by (simp add: member0_def)
  have l: "rev (take 100 (newest_first (joined db0 7))) =
       [\<lparr>st_ID = 3, st_RoomID = 7, st_UserID = 2, st_Content = ''hi ann'', st_Username = ''bob'',
          st_CreatedAt = 20\<rparr>,
        \<lparr>st_ID = 1, st_RoomID = 7, st_UserID = 1, st_Content = ''hello'', st_Username = ''ann'',
          st_CreatedAt = 30\<rparr>]"
    by (simp add: newest_first_def joined_def db0_def join_row_def)
  from history_retrieval[of member0 7 1 db0, OF h] obtain ms where
    "getRoomMessagesHandler (Inr 1) (Inr 7) member0 (pg_query db0) = MessagesResponse 200 ms"
    "ms = rev (take 100 (newest_first (joined db0 7)))"
    by (elim exE conjE)
  with h l show ?thesis by simp
qed

end
